theory Spec2Isabelle
  imports Complex_Main "HOL-Library.Word"
begin

unbundle bit_operations_syntax

section \<open>The incoming DNS packet decoder of zeroconf (\<^verbatim>\<open>_protocol/incoming.py\<close>)\<close>

text \<open>
  The class \<^verbatim>\<open>DNSIncoming\<close> is embedded as a record of its slots; each method becomes a
  function from the object's state to a result and the updated state. A raised exception
  is the left injection of the result, and the state a method has reached when it raises
  is kept, as the mutations of \<^verbatim>\<open>self\<close> are in Python. Calls to the logger are left out.
  The interpreter's recursion limit is part of the model where the source recurses: the
  state carries the number of nested calls the interpreter still allows.
\<close>

subsection \<open>Bytes, text and exceptions\<close>

type_synonym byte = "8 word"

text \<open>A Python \<^verbatim>\<open>str\<close> is a sequence of Unicode code points; its \<^verbatim>\<open>len\<close> counts them.\<close>

type_synonym ustr = "nat list"

text \<open>
  The exceptions the decoder can meet. \<^verbatim>\<open>StructError\<close> is \<^verbatim>\<open>struct.error\<close>;
  \<^verbatim>\<open>UnicodeDecodeError\<close> is raised by a strict \<^verbatim>\<open>bytes.decode('utf-8')\<close> and is a
  \<^verbatim>\<open>ValueError\<close>, so it is not one of \<^verbatim>\<open>DECODE_EXCEPTIONS\<close>. \<^verbatim>\<open>RecursionError\<close> is what
  the interpreter raises when a call would exceed its recursion limit; it is not one of
  \<^verbatim>\<open>DECODE_EXCEPTIONS\<close> either.
\<close>

datatype error =
  IndexError | StructError | IncomingDecodeError | UnicodeDecodeError | RecursionError

definition DECODE_EXCEPTIONS :: "error set" where
  "DECODE_EXCEPTIONS = {IndexError, StructError, IncomingDecodeError}"

definition DNS_COMPRESSION_HEADER_LEN :: nat where
  "DNS_COMPRESSION_HEADER_LEN = 1"

definition DNS_COMPRESSION_POINTER_LEN :: nat where
  "DNS_COMPRESSION_POINTER_LEN = 2"

definition MAX_DNS_LABELS :: nat where
  "MAX_DNS_LABELS = 128"

definition MAX_NAME_LENGTH :: nat where
  "MAX_NAME_LENGTH = 253"

text \<open>
  Modelled from the spec: the flag and record type constants are imported from
  \<^verbatim>\<open>zeroconf/const.py\<close>, which is not among the sources. The spec names the QR bit and
  the TC bit of the DNS header flags and the record types "as defined by standard DNS":
  QR is bit 15, TC is bit 9, and a query has the QR bit clear.
\<close>

definition FLAGS_QR_MASK :: "16 word" where
  "FLAGS_QR_MASK = 0x8000"

definition FLAGS_QR_QUERY :: "16 word" where
  "FLAGS_QR_QUERY = 0x0000"

definition FLAGS_QR_RESPONSE :: "16 word" where
  "FLAGS_QR_RESPONSE = 0x8000"

definition FLAGS_TC :: "16 word" where
  "FLAGS_TC = 0x0200"

definition TYPE_A :: "16 word" where "TYPE_A = 1"
definition TYPE_CNAME :: "16 word" where "TYPE_CNAME = 5"
definition TYPE_PTR :: "16 word" where "TYPE_PTR = 12"
definition TYPE_HINFO :: "16 word" where "TYPE_HINFO = 13"
definition TYPE_TXT :: "16 word" where "TYPE_TXT = 16"
definition TYPE_AAAA :: "16 word" where "TYPE_AAAA = 28"
definition TYPE_SRV :: "16 word" where "TYPE_SRV = 33"
definition TYPE_NSEC :: "16 word" where "TYPE_NSEC = 47"

subsection \<open>UTF-8 decoding of \<^verbatim>\<open>bytes.decode\<close>\<close>

text \<open>
  \<^verbatim>\<open>utf8_step b rest\<close> reads the sequence that starts with the byte \<^verbatim>\<open>b\<close>: the code
  point (or \<^verbatim>\<open>None\<close> for an ill-formed sequence) and the number of bytes of \<^verbatim>\<open>rest\<close>
  that belong to it. An ill-formed sequence extends over the longest prefix of a
  well-formed one, as in CPython's decoder.
\<close>

definition is_continuation :: "byte \<Rightarrow> bool" where
  "is_continuation b = (0x80 \<le> b \<and> b \<le> 0xBF)"

definition utf8_step :: "byte \<Rightarrow> byte list \<Rightarrow> nat option \<times> nat" where
  "utf8_step b rest =
    (if b < 0x80 then (Some (unat b), 0)
     else if b < 0xC2 then (None, 0)
     else if b < 0xE0 then
       (case rest of
          [] \<Rightarrow> (None, 0)
        | b1 # _ \<Rightarrow>
            if is_continuation b1
            then (Some (unat (b AND 0x1F) * 64 + unat (b1 AND 0x3F)), 1)
            else (None, 0))
     else if b < 0xF0 then
       (case rest of
          [] \<Rightarrow> (None, 0)
        | b1 # rest1 \<Rightarrow>
            if \<not> is_continuation b1 \<or> (if b1 < 0xA0 then b = 0xE0 else b = 0xED)
            then (None, 0)
            else (case rest1 of
                    [] \<Rightarrow> (None, 1)
                  | b2 # _ \<Rightarrow>
                      if is_continuation b2
                      then (Some (unat (b AND 0x0F) * 4096 + unat (b1 AND 0x3F) * 64
                                  + unat (b2 AND 0x3F)), 2)
                      else (None, 1)))
     else if b < 0xF5 then
       (case rest of
          [] \<Rightarrow> (None, 0)
        | b1 # rest1 \<Rightarrow>
            if \<not> is_continuation b1 \<or> (if b1 < 0x90 then b = 0xF0 else b = 0xF4)
            then (None, 0)
            else (case rest1 of
                    [] \<Rightarrow> (None, 1)
                  | b2 # rest2 \<Rightarrow>
                      if \<not> is_continuation b2 then (None, 1)
                      else (case rest2 of
                              [] \<Rightarrow> (None, 2)
                            | b3 # _ \<Rightarrow>
                                if is_continuation b3
                                then (Some (unat (b AND 0x07) * 262144
                                            + unat (b1 AND 0x3F) * 4096
                                            + unat (b2 AND 0x3F) * 64
                                            + unat (b3 AND 0x3F)), 3)
                                else (None, 2))))
     else (None, 0))"

text \<open>\<^verbatim>\<open>bs.decode('utf-8', 'replace')\<close>: every ill-formed sequence becomes U+FFFD.\<close>

function decode_replace :: "byte list \<Rightarrow> ustr" where
  "decode_replace [] = []"
| "decode_replace (b # rest) =
    (case utf8_step b rest of
       (Some c, k) \<Rightarrow> c # decode_replace (drop k rest)
     | (None, k) \<Rightarrow> 0xFFFD # decode_replace (drop k rest))"
  by pat_completeness auto
termination
  by (relation "measure length") auto

text \<open>\<^verbatim>\<open>bs.decode('utf-8')\<close>: an ill-formed sequence raises \<^verbatim>\<open>UnicodeDecodeError\<close>.\<close>

function decode_strict :: "byte list \<Rightarrow> error + ustr" where
  "decode_strict [] = Inr []"
| "decode_strict (b # rest) =
    (case utf8_step b rest of
       (Some c, k) \<Rightarrow>
         (case decode_strict (drop k rest) of
            Inl e \<Rightarrow> Inl e
          | Inr cs \<Rightarrow> Inr (c # cs))
     | (None, k) \<Rightarrow> Inl UnicodeDecodeError)"
  by pat_completeness auto
termination
  by (relation "measure length") auto

subsection \<open>The decoded values\<close>

text \<open>
  The record classes of \<^verbatim>\<open>zeroconf/_dns.py\<close> are constructors holding the arguments the
  decoder passes: name, type, class, then for a record the TTL, the payload fields and the
  creation time, and for an address the scope identifier last.
\<close>

datatype dns_question = DNSQuestion ustr "16 word" "16 word"

datatype dns_record =
    DNSAddress ustr "16 word" "16 word" int "byte list" real "int option"
  | DNSPointer ustr "16 word" "16 word" int ustr real
  | DNSText ustr "16 word" "16 word" int "byte list" real
  | DNSService ustr "16 word" "16 word" int "16 word" "16 word" "16 word" ustr real
  | DNSHinfo ustr "16 word" "16 word" int ustr ustr real
  | DNSNsec ustr "16 word" "16 word" int ustr "nat list" real

subsection \<open>The state of a \<^verbatim>\<open>DNSIncoming\<close>\<close>

type_synonym name_cache = "nat \<rightharpoonup> ustr list"

record incoming =
  did_read_others :: bool
  flags :: "16 word"
  offset :: nat
  data :: "byte list"
  data_len :: nat
  name_cache :: name_cache
  questions :: "dns_question list"
  answers :: "dns_record list"
  ident :: "16 word"
  num_questions :: "16 word"
  num_answers :: "16 word"
  num_authorities :: "16 word"
  num_additionals :: "16 word"
  valid :: bool
  now :: real
  scope_id :: "int option"
  source :: "(string \<times> nat) option"
  stack_room :: nat

type_synonym 'a result = "(error + 'a) \<times> incoming"

subsection \<open>The \<^verbatim>\<open>struct\<close> unpackers\<close>

text \<open>
  \<^verbatim>\<open>unpack_from\<close> raises \<^verbatim>\<open>struct.error\<close> unless the buffer holds \<^verbatim>\<open>n\<close> bytes from the
  offset on. The formats are big-endian; \<^verbatim>\<open>H\<close> is an unsigned 16-bit value and \<^verbatim>\<open>i\<close> a
  signed 32-bit value.
\<close>

definition unpack_from :: "nat \<Rightarrow> byte list \<Rightarrow> nat \<Rightarrow> error + byte list" where
  "unpack_from n buf off =
    (if off + n \<le> length buf then Inr (take n (drop off buf)) else Inl StructError)"

definition u16 :: "byte list \<Rightarrow> nat \<Rightarrow> 16 word" where
  "u16 bs i = word_of_nat (unat (bs ! i) * 256 + unat (bs ! (i + 1)))"

definition i32 :: "byte list \<Rightarrow> nat \<Rightarrow> int" where
  "i32 bs i =
    sint (word_of_nat (((unat (bs ! i) * 256 + unat (bs ! (i + 1))) * 256
                        + unat (bs ! (i + 2))) * 256 + unat (bs ! (i + 3))) :: 32 word)"

definition UNPACK_3H :: "byte list \<Rightarrow> nat \<Rightarrow> error + 16 word \<times> 16 word \<times> 16 word" where
  "UNPACK_3H buf off =
    (case unpack_from 6 buf off of
       Inl e \<Rightarrow> Inl e
     | Inr bs \<Rightarrow> Inr (u16 bs 0, u16 bs 2, u16 bs 4))"

definition UNPACK_6H ::
  "byte list \<Rightarrow> nat \<Rightarrow>
   error + 16 word \<times> 16 word \<times> 16 word \<times> 16 word \<times> 16 word \<times> 16 word" where
  "UNPACK_6H buf off =
    (case unpack_from 12 buf off of
       Inl e \<Rightarrow> Inl e
     | Inr bs \<Rightarrow> Inr (u16 bs 0, u16 bs 2, u16 bs 4, u16 bs 6, u16 bs 8, u16 bs 10))"

definition UNPACK_HH :: "byte list \<Rightarrow> nat \<Rightarrow> error + 16 word \<times> 16 word" where
  "UNPACK_HH buf off =
    (case unpack_from 4 buf off of
       Inl e \<Rightarrow> Inl e
     | Inr bs \<Rightarrow> Inr (u16 bs 0, u16 bs 2))"

definition UNPACK_HHiH ::
  "byte list \<Rightarrow> nat \<Rightarrow> error + 16 word \<times> 16 word \<times> int \<times> 16 word" where
  "UNPACK_HHiH buf off =
    (case unpack_from 10 buf off of
       Inl e \<Rightarrow> Inl e
     | Inr bs \<Rightarrow> Inr (u16 bs 0, u16 bs 2, i32 bs 4, u16 bs 8))"

subsection \<open>Flag accessors\<close>

definition is_query :: "incoming \<Rightarrow> bool" where
  "is_query s = (flags s AND FLAGS_QR_MASK = FLAGS_QR_QUERY)"

definition is_response :: "incoming \<Rightarrow> bool" where
  "is_response s = (flags s AND FLAGS_QR_MASK = FLAGS_QR_RESPONSE)"

definition truncated :: "incoming \<Rightarrow> bool" where
  "truncated s = (flags s AND FLAGS_TC = FLAGS_TC)"

subsection \<open>The byte cursor\<close>

text \<open>\<^verbatim>\<open>_unpack\<close> advances the cursor before it unpacks, so a failed read has moved it.\<close>

definition unpack :: "(byte list \<Rightarrow> nat \<Rightarrow> error + 'a) \<Rightarrow> nat \<Rightarrow> incoming \<Rightarrow> 'a result" where
  "unpack unpacker len s =
    (let s1 = s\<lparr>offset := offset s + len\<rparr>
     in (unpacker (data s1) (offset s1 - len), s1))"

definition read_header :: "incoming \<Rightarrow> unit result" where
  "read_header s =
    (case unpack UNPACK_6H 12 s of
       (Inl e, s1) \<Rightarrow> (Inl e, s1)
     | (Inr (i, f, nq, na, nau, nad), s1) \<Rightarrow>
         (Inr (), s1\<lparr>ident := i, flags := f, num_questions := nq, num_answers := na,
                     num_authorities := nau, num_additionals := nad\<rparr>))"

text \<open>
  \<^verbatim>\<open>_read_string\<close> takes a slice, and a slice that reaches past the end of the buffer is
  cut short without an exception; the cursor advances by the full length.
\<close>

definition read_string :: "nat \<Rightarrow> incoming \<Rightarrow> (byte list) result" where
  "read_string len s =
    (let info = take len (drop (offset s) (data s))
     in (Inr info, s\<lparr>offset := offset s + len\<rparr>))"

text \<open>\<^verbatim>\<open>_read_character_string\<close> indexes the length byte, which raises at the end.\<close>

definition read_character_string :: "incoming \<Rightarrow> (byte list) result" where
  "read_character_string s =
    (if offset s < length (data s)
     then let len = unat (data s ! offset s)
          in read_string len (s\<lparr>offset := offset s + 1\<rparr>)
     else (Inl IndexError, s))"

subsection \<open>Name decompression\<close>

text \<open>
  \<^verbatim>\<open>_decode_labels_at_offset\<close> appends to the list \<^verbatim>\<open>labels\<close> and to the set
  \<^verbatim>\<open>seen_pointers\<close> in place and writes the name cache. The model returns the new offset
  with the extended label list, and the cache also when it raises. The list handed to the
  recursive call is the empty list found for the target, either the default of
  \<^verbatim>\<open>name_cache.get\<close> or a cached empty list.

  Following a pointer to a target that is not cached is a recursive call and takes one
  more frame of the interpreter. \<open>room\<close> is the number of nested calls the recursion
  limit still allows; with no room left the call raises \<^verbatim>\<open>RecursionError\<close>, after the
  target has been added to the seen pointers and before the cache is written.
\<close>

function decode_labels_at_offset ::
  "byte list \<Rightarrow> nat \<Rightarrow> name_cache \<Rightarrow> nat \<Rightarrow> ustr list \<Rightarrow> nat set \<Rightarrow> nat
   \<Rightarrow> (error + nat \<times> ustr list) \<times> name_cache" where
  "decode_labels_at_offset buf n cache off labels seen_pointers room =
    (if off < n then
       if length buf \<le> off then (Inl IndexError, cache)
       else
         let len = unat (buf ! off) in
         if len = 0 then (Inr (off + DNS_COMPRESSION_HEADER_LEN, labels), cache)
         else if len < 0x40 then
           let label_idx = off + DNS_COMPRESSION_HEADER_LEN in
           decode_labels_at_offset buf n cache (off + DNS_COMPRESSION_HEADER_LEN + len)
             (labels @ [decode_replace (take len (drop label_idx buf))]) seen_pointers room
         else if len < 0xC0 then (Inl IncomingDecodeError, cache)
         else if length buf \<le> off + 1 then (Inl IndexError, cache)
         else
           let link = unat (buf ! off AND 0x3F) * 256 + unat (buf ! (off + 1)) in
           if link > n then (Inl IncomingDecodeError, cache)
           else if link = off then (Inl IncomingDecodeError, cache)
           else if link \<in> seen_pointers then (Inl IncomingDecodeError, cache)
           else
             let linked_labels = (case cache link of None \<Rightarrow> [] | Some ls \<Rightarrow> ls) in
             if linked_labels = [] then
               if room = 0 then (Inl RecursionError, cache)
               else
                 (case decode_labels_at_offset buf n cache link linked_labels
                         (insert link seen_pointers) (room - 1) of
                    (Inl e, cache1) \<Rightarrow> (Inl e, cache1)
                  | (Inr (_, linked_labels1), cache1) \<Rightarrow>
                      let cache2 = cache1(link \<mapsto> linked_labels1);
                          labels1 = labels @ linked_labels1
                      in if length labels1 > MAX_DNS_LABELS
                         then (Inl IncomingDecodeError, cache2)
                         else (Inr (off + DNS_COMPRESSION_POINTER_LEN, labels1), cache2))
             else
               let labels1 = labels @ linked_labels
               in if length labels1 > MAX_DNS_LABELS
                  then (Inl IncomingDecodeError, cache)
                  else (Inr (off + DNS_COMPRESSION_POINTER_LEN, labels1), cache)
     else (Inl IncomingDecodeError, cache))"
  by pat_completeness auto
termination
proof (relation "measures [\<lambda>(buf, n, cache, off, labels, seen, room). card ({..n} - seen),
                           \<lambda>(buf, n, cache, off, labels, seen, room). n - off]", goal_cases)
  case 1
  show ?case by simp
next
  case (2 buf n cache off labels seen room len label_idx)
  then show ?case
    by (simp add: DNS_COMPRESSION_HEADER_LEN_def)
next
  case (3 buf n cache off labels seen room len link linked)
  then have "link \<in> {..n} - seen"
    by simp
  then have "card ({..n} - insert link seen) < card ({..n} - seen)"
    by (metis Diff_insert card_Diff1_less finite_Diff finite_atMost)
  then show ?case
    by simp
qed

text \<open>\<^verbatim>\<open>".".join(labels)\<close>; the code point of the dot is 46.\<close>

fun dot_join :: "ustr list \<Rightarrow> ustr" where
  "dot_join [] = []"
| "dot_join [l] = l"
| "dot_join (l # ls) = l @ [46] @ dot_join ls"

text \<open>
  \<^verbatim>\<open>_read_name\<close> starts every name with fresh labels and a fresh set of seen pointers. The
  labels are cached at the name's offset before the length of the name is checked.
  \<open>stack_room\<close> is not a slot of the class: it is the number of nested calls of
  \<^verbatim>\<open>_decode_labels_at_offset\<close> that the interpreter's recursion limit allows when a name
  is read (the limit less the depth of the stack there).
\<close>

definition read_name :: "incoming \<Rightarrow> ustr result" where
  "read_name s =
    (let original_offset = offset s in
     case decode_labels_at_offset (data s) (data_len s) (name_cache s) original_offset [] {}
            (stack_room s) of
       (Inl e, cache1) \<Rightarrow> (Inl e, s\<lparr>name_cache := cache1\<rparr>)
     | (Inr (off, labels), cache1) \<Rightarrow>
         let s1 = s\<lparr>offset := off, name_cache := cache1(original_offset \<mapsto> labels)\<rparr>;
             name = dot_join labels @ [46]
         in if length name > MAX_NAME_LENGTH
            then (Inl IncomingDecodeError, s1)
            else (Inr name, s1))"

subsection \<open>Questions\<close>

text \<open>
  \<^verbatim>\<open>_read_questions\<close> builds the list in a comprehension and assigns it to
  \<^verbatim>\<open>self.questions\<close> once every question is read; the loop below carries the list the
  comprehension has built so far.
\<close>

fun read_questions_loop :: "nat \<Rightarrow> dns_question list \<Rightarrow> incoming \<Rightarrow> (dns_question list) result" where
  "read_questions_loop 0 acc s = (Inr acc, s)"
| "read_questions_loop (Suc k) acc s =
    (case read_name s of
       (Inl e, s1) \<Rightarrow> (Inl e, s1)
     | (Inr name, s1) \<Rightarrow>
         (case unpack UNPACK_HH 4 s1 of
            (Inl e, s2) \<Rightarrow> (Inl e, s2)
          | (Inr (rtype, rclass), s2) \<Rightarrow>
              read_questions_loop k (acc @ [DNSQuestion name rtype rclass]) s2))"

definition read_questions :: "incoming \<Rightarrow> unit result" where
  "read_questions s =
    (case read_questions_loop (unat (num_questions s)) [] s of
       (Inl e, s1) \<Rightarrow> (Inl e, s1)
     | (Inr qs, s1) \<Rightarrow> (Inr (), s1\<lparr>questions := qs\<rparr>))"

subsection \<open>The NSEC bitmap\<close>

definition bitmap_byte :: "nat \<Rightarrow> nat \<Rightarrow> byte \<Rightarrow> nat list \<Rightarrow> nat list" where
  "bitmap_byte window i byte rdtypes =
    fold (\<lambda>bit acc. if byte AND drop_bit bit 0x80 \<noteq> 0
                     then acc @ [bit + window * 256 + i * 8] else acc)
         [0..<8] rdtypes"

definition bitmap_window :: "nat \<Rightarrow> byte list \<Rightarrow> nat list \<Rightarrow> nat list" where
  "bitmap_window window bytes rdtypes =
    fold (\<lambda>(i, byte) acc. bitmap_byte window i byte acc) (enumerate 0 bytes) rdtypes"

function read_bitmap_loop :: "nat \<Rightarrow> nat list \<Rightarrow> incoming \<Rightarrow> (nat list) result" where
  "read_bitmap_loop end_off rdtypes s =
    (if offset s < end_off then
       if length (data s) \<le> offset s then (Inl IndexError, s)
       else
         let window = unat (data s ! offset s) in
         if length (data s) \<le> offset s + 1 then (Inl IndexError, s)
         else
           let bitmap_length = unat (data s ! (offset s + 1));
               rdtypes1 = bitmap_window window
                            (take bitmap_length (drop (offset s + 2) (data s))) rdtypes
           in read_bitmap_loop end_off rdtypes1 (s\<lparr>offset := offset s + 2 + bitmap_length\<rparr>)
     else (Inr rdtypes, s))"
  by pat_completeness auto
termination
  by (relation "measure (\<lambda>(end_off, rdtypes, s). end_off - offset s)") auto

definition read_bitmap :: "nat \<Rightarrow> incoming \<Rightarrow> (nat list) result" where
  "read_bitmap end_off s = read_bitmap_loop end_off [] s"

subsection \<open>Records\<close>

definition read_record ::
  "ustr \<Rightarrow> 16 word \<Rightarrow> 16 word \<Rightarrow> int \<Rightarrow> nat \<Rightarrow> incoming \<Rightarrow> (dns_record option) result" where
  "read_record domain rtype rclass ttl len s =
    (if rtype = TYPE_A then
       (case read_string 4 s of
          (Inl e, s1) \<Rightarrow> (Inl e, s1)
        | (Inr addr, s1) \<Rightarrow>
            (Inr (Some (DNSAddress domain rtype rclass ttl addr (now s1) None)), s1))
     else if rtype = TYPE_CNAME \<or> rtype = TYPE_PTR then
       (case read_name s of
          (Inl e, s1) \<Rightarrow> (Inl e, s1)
        | (Inr alias, s1) \<Rightarrow>
            (Inr (Some (DNSPointer domain rtype rclass ttl alias (now s1))), s1))
     else if rtype = TYPE_TXT then
       (case read_string len s of
          (Inl e, s1) \<Rightarrow> (Inl e, s1)
        | (Inr text, s1) \<Rightarrow>
            (Inr (Some (DNSText domain rtype rclass ttl text (now s1))), s1))
     else if rtype = TYPE_SRV then
       (case unpack UNPACK_3H 6 s of
          (Inl e, s1) \<Rightarrow> (Inl e, s1)
        | (Inr (priority, weight, port), s1) \<Rightarrow>
            (case read_name s1 of
               (Inl e, s2) \<Rightarrow> (Inl e, s2)
             | (Inr server, s2) \<Rightarrow>
                 (Inr (Some (DNSService domain rtype rclass ttl priority weight port server
                               (now s2))), s2)))
     else if rtype = TYPE_HINFO then
       (case read_character_string s of
          (Inl e, s1) \<Rightarrow> (Inl e, s1)
        | (Inr cpu_bytes, s1) \<Rightarrow>
            (case decode_strict cpu_bytes of
               Inl e \<Rightarrow> (Inl e, s1)
             | Inr cpu \<Rightarrow>
                 (case read_character_string s1 of
                    (Inl e, s2) \<Rightarrow> (Inl e, s2)
                  | (Inr os_bytes, s2) \<Rightarrow>
                      (case decode_strict os_bytes of
                         Inl e \<Rightarrow> (Inl e, s2)
                       | Inr os \<Rightarrow>
                           (Inr (Some (DNSHinfo domain rtype rclass ttl cpu os (now s2))),
                            s2)))))
     else if rtype = TYPE_AAAA then
       (case read_string 16 s of
          (Inl e, s1) \<Rightarrow> (Inl e, s1)
        | (Inr addr, s1) \<Rightarrow>
            (Inr (Some (DNSAddress domain rtype rclass ttl addr (now s1) (scope_id s1))), s1))
     else if rtype = TYPE_NSEC then
       (let name_start = offset s in
        case read_name s of
          (Inl e, s1) \<Rightarrow> (Inl e, s1)
        | (Inr next_name, s1) \<Rightarrow>
            (case read_bitmap (name_start + len) s1 of
               (Inl e, s2) \<Rightarrow> (Inl e, s2)
             | (Inr rdtypes, s2) \<Rightarrow>
                 (Inr (Some (DNSNsec domain rtype rclass ttl next_name rdtypes (now s2))),
                  s2)))
     else (Inr None, s\<lparr>offset := offset s + len\<rparr>))"

text \<open>
  One round of the loop of \<^verbatim>\<open>_read_others\<close> is a recursion step: the name and the fixed
  prefix are read outside the \<^verbatim>\<open>try\<close>, the payload inside it, and only an exception of
  \<^verbatim>\<open>DECODE_EXCEPTIONS\<close> is caught there.
\<close>

fun read_others_loop :: "nat \<Rightarrow> incoming \<Rightarrow> unit result" where
  "read_others_loop 0 s = (Inr (), s)"
| "read_others_loop (Suc k) s =
    (case read_name s of
       (Inl e, s1) \<Rightarrow> (Inl e, s1)
     | (Inr domain, s1) \<Rightarrow>
         (case UNPACK_HHiH (data s1) (offset s1) of
            Inl e \<Rightarrow> (Inl e, s1)
          | Inr (rtype, rclass, ttl, len) \<Rightarrow>
              let s2 = s1\<lparr>offset := offset s1 + 10\<rparr>;
                  end_off = offset s2 + unat len
              in (case read_record domain rtype rclass ttl (unat len) s2 of
                    (Inl e, s3) \<Rightarrow>
                      if e \<in> DECODE_EXCEPTIONS
                      then read_others_loop k (s3\<lparr>offset := end_off\<rparr>)
                      else (Inl e, s3)
                  | (Inr None, s3) \<Rightarrow> read_others_loop k s3
                  | (Inr (Some rec), s3) \<Rightarrow>
                      read_others_loop k (s3\<lparr>answers := answers s3 @ [rec]\<rparr>))))"

definition read_others :: "incoming \<Rightarrow> unit result" where
  "read_others s =
    (let s1 = s\<lparr>did_read_others := True\<rparr>;
         n = unat (num_answers s1) + unat (num_authorities s1) + unat (num_additionals s1)
     in read_others_loop n s1)"

subsection \<open>Construction and the \<^verbatim>\<open>answers\<close> property\<close>

definition initial_parse :: "incoming \<Rightarrow> unit result" where
  "initial_parse s =
    (case read_header s of
       (Inl e, s1) \<Rightarrow> (Inl e, s1)
     | (Inr _, s1) \<Rightarrow>
         (case read_questions s1 of
            (Inl e, s2) \<Rightarrow> (Inl e, s2)
          | (Inr _, s2) \<Rightarrow>
              (case (if num_questions s2 = 0 then read_others s2 else (Inr (), s2)) of
                 (Inl e, s3) \<Rightarrow> (Inl e, s3)
               | (Inr _, s3) \<Rightarrow> (Inr (), s3\<lparr>valid := True\<rparr>))))"

text \<open>
  The slots as \<^verbatim>\<open>__init__\<close> sets them before it parses. \<^verbatim>\<open>now or current_time_millis()\<close>
  takes the clock when no time, or the time 0, is given; the clock's reading is an argument,
  and so is the room the interpreter's stack has left.
\<close>

definition init_slots ::
  "byte list \<Rightarrow> (string \<times> nat) option \<Rightarrow> int option \<Rightarrow> real option \<Rightarrow> real \<Rightarrow> nat
   \<Rightarrow> incoming" where
  "init_slots buf src scope now_arg current_time_millis room =
    \<lparr>did_read_others = False, flags = 0, offset = 0, data = buf, data_len = length buf,
     name_cache = Map.empty, questions = [], answers = [], ident = 0, num_questions = 0,
     num_answers = 0, num_authorities = 0, num_additionals = 0, valid = False,
     now = (case now_arg of
              None \<Rightarrow> current_time_millis
            | Some t \<Rightarrow> if t = 0 then current_time_millis else t),
     scope_id = scope, source = src, stack_room = room\<rparr>"

text \<open>
  \<^verbatim>\<open>__init__\<close> catches \<^verbatim>\<open>DECODE_EXCEPTIONS\<close> and returns the object as far as it was
  built; any other exception leaves the constructor and no object is returned.
\<close>

definition DNSIncoming ::
  "byte list \<Rightarrow> (string \<times> nat) option \<Rightarrow> int option \<Rightarrow> real option \<Rightarrow> real \<Rightarrow> nat
   \<Rightarrow> error + incoming" where
  "DNSIncoming buf src scope now_arg current_time_millis room =
    (case initial_parse (init_slots buf src scope now_arg current_time_millis room) of
       (Inl e, s) \<Rightarrow> if e \<in> DECODE_EXCEPTIONS then Inr s else Inl e
     | (Inr _, s) \<Rightarrow> Inr s)"

text \<open>
  The property \<^verbatim>\<open>answers\<close>; the record field \<^verbatim>\<open>answers\<close> is the slot \<^verbatim>\<open>_answers\<close>.
\<close>

definition get_answers :: "incoming \<Rightarrow> (dns_record list) result" where
  "get_answers s =
    (if \<not> did_read_others s then
       (case read_others s of
          (Inl e, s1) \<Rightarrow>
            if e \<in> DECODE_EXCEPTIONS then (Inr (answers s1), s1) else (Inl e, s1)
        | (Inr _, s1) \<Rightarrow> (Inr (answers s1), s1))
     else (Inr (answers s), s))"

subsection \<open>The meaning of an encoded name\<close>

text \<open>
  Used in the proofs about the name cache: \<open>labels_at buf n off ls ts\<close> says that the name
  encoded at \<open>off\<close> has the labels \<open>ls\<close> and that reading it follows the compression
  pointers to the targets \<open>ts\<close>, in this order. It reads the bytes as
  \<^verbatim>\<open>_decode_labels_at_offset\<close> does, without a cache, a set of seen pointers or a cap.
\<close>

inductive labels_at :: "byte list \<Rightarrow> nat \<Rightarrow> nat \<Rightarrow> ustr list \<Rightarrow> nat list \<Rightarrow> bool"
  for buf :: "byte list" and n :: nat where
  root: "off < n \<Longrightarrow> off < length buf \<Longrightarrow> unat (buf ! off) = 0 \<Longrightarrow> labels_at buf n off [] []"
| label: "off < n \<Longrightarrow> off < length buf \<Longrightarrow> len = unat (buf ! off) \<Longrightarrow> 0 < len \<Longrightarrow> len < 0x40
    \<Longrightarrow> labels_at buf n (off + 1 + len) ls ts
    \<Longrightarrow> labels_at buf n off (decode_replace (take len (drop (off + 1) buf)) # ls) ts"
| pointer: "off < n \<Longrightarrow> off + 1 < length buf \<Longrightarrow> 0xC0 \<le> unat (buf ! off)
    \<Longrightarrow> link = unat (buf ! off AND 0x3F) * 256 + unat (buf ! (off + 1))
    \<Longrightarrow> labels_at buf n link ls ts
    \<Longrightarrow> labels_at buf n off ls (link # ts)"

text \<open>
  \<open>pointer_at buf n off link\<close>: the two bytes at \<open>off\<close> are a compression pointer to
  \<open>link\<close>.
\<close>

definition pointer_at :: "byte list \<Rightarrow> nat \<Rightarrow> nat \<Rightarrow> nat \<Rightarrow> bool" where
  "pointer_at buf n off link =
    (off < n \<and> off + 1 < length buf \<and> 0xC0 \<le> unat (buf ! off)
     \<and> link = unat (buf ! off AND 0x3F) * 256 + unat (buf ! (off + 1)))"

text \<open>
  \<open>cache_sound\<close>: every entry of the name cache is the label list that
  \<^verbatim>\<open>_decode_labels_at_offset\<close> returns at that offset when it starts without a cache
  and with room enough.
  \<open>cache_sem\<close> says the same through \<open>labels_at\<close>, with the cap on the number of labels
  that following a pointer enforces.
\<close>

definition cache_sound :: "byte list \<Rightarrow> nat \<Rightarrow> name_cache \<Rightarrow> bool" where
  "cache_sound buf n c =
    (\<forall>k ls. c k = Some ls \<longrightarrow>
       (\<exists>room off1 c1.
          decode_labels_at_offset buf n Map.empty k [] {} room = (Inr (off1, ls), c1)))"

definition cache_sem :: "byte list \<Rightarrow> nat \<Rightarrow> name_cache \<Rightarrow> bool" where
  "cache_sem buf n c =
    (\<forall>k ls. c k = Some ls \<longrightarrow>
       (\<exists>ts. labels_at buf n k ls ts \<and> (ts \<noteq> [] \<longrightarrow> length ls \<le> MAX_DNS_LABELS)))"

subsection \<open>Frames\<close>

text \<open>
  Two relations used in the proofs: \<open>cursor_moved s s'\<close> says that \<open>s'\<close> differs from \<open>s\<close>
  at most in the cursor and the name cache, and that the name cache is still sound if it
  was; \<open>answers_grown s s'\<close> allows in addition records appended to the answers.
\<close>

definition cursor_moved :: "incoming \<Rightarrow> incoming \<Rightarrow> bool" where
  "cursor_moved s s' =
    (\<exists>off c. s' = s\<lparr>offset := off, name_cache := c\<rparr>
       \<and> (cache_sound (data s) (data_len s) (name_cache s)
            \<longrightarrow> cache_sound (data s) (data_len s) c))"

definition answers_grown :: "incoming \<Rightarrow> incoming \<Rightarrow> bool" where
  "answers_grown s s' =
    (\<exists>off c rs. s' = s\<lparr>offset := off, name_cache := c, answers := answers s @ rs\<rparr>
       \<and> (cache_sound (data s) (data_len s) (name_cache s)
            \<longrightarrow> cache_sound (data s) (data_len s) c))"

text \<open>\<open>sound_state\<close>: the name cache of a message is sound for its buffer.\<close>

definition sound_state :: "incoming \<Rightarrow> bool" where
  "sound_state s = cache_sound (data s) (data_len s) (name_cache s)"

subsection \<open>Example packets\<close>

text \<open>A header that declares one answer, and nothing after it.\<close>

definition truncated_answer_packet :: "byte list" where
  "truncated_answer_packet = [0, 0, 0x84, 0, 0, 0, 0, 1, 0, 0, 0, 0]"

text \<open>
  Three answers: an A record, a PTR record whose name is a compression pointer to itself,
  and another A record.
\<close>

definition skipped_pointer_packet :: "byte list" where
  "skipped_pointer_packet =
    [0, 0, 0x84, 0, 0, 0, 0, 3, 0, 0, 0, 0,
     1, 0x61, 0, 0, 1, 0, 1, 0, 0, 0, 0x78, 0, 4, 10, 0, 0, 1,
     1, 0x62, 0, 0, 12, 0, 1, 0, 0, 0, 0x78, 0, 2, 0xC0, 0x2A,
     1, 0x63, 0, 0, 1, 0, 1, 0, 0, 0, 0x78, 0, 4, 10, 0, 0, 3]"


text \<open>An A answer whose four address bytes are cut off after the second.\<close>

definition cut_address_packet :: "byte list" where
  "cut_address_packet =
    [0, 0, 0x84, 0, 0, 0, 0, 1, 0, 0, 0, 0,
     1, 0x61, 0, 0, 1, 0, 1, 0, 0, 0, 0x78, 0, 4, 10, 0]"

text \<open>A response with one complete A answer and no question.\<close>

definition response_packet :: "byte list" where
  "response_packet =
    [0, 0, 0x84, 0, 0, 0, 0, 1, 0, 0, 0, 0,
     1, 0x61, 0, 0, 1, 0, 1, 0, 0, 0, 0x78, 0, 4, 10, 0, 0, 1]"

text \<open>
  A query with one question and one A answer whose name is a compression pointer to the
  question's name.
\<close>

definition query_packet :: "byte list" where
  "query_packet =
    [0, 0, 0, 0, 0, 1, 0, 1, 0, 0, 0, 0,
     1, 0x61, 0, 0, 1, 0, 1,
     0xC0, 12, 0, 1, 0, 1, 0, 0, 0, 0x78, 0, 4, 10, 0, 0, 1]"

text \<open>A query that declares two questions; the name of the second is cut off.\<close>

definition two_questions_cut_packet :: "byte list" where
  "two_questions_cut_packet =
    [0, 0, 0, 0, 0, 2, 0, 0, 0, 0, 0, 0,
     1, 0x61, 0, 0, 1, 0, 1,
     1, 0x62]"

text \<open>
  A query with one question and three declared A answers; the packet ends inside the fixed
  prefix of the third.
\<close>

definition third_answer_cut_packet :: "byte list" where
  "third_answer_cut_packet =
    [0, 0, 0, 0, 0, 1, 0, 3, 0, 0, 0, 0,
     1, 0x61, 0, 0, 1, 0, 1,
     0xC0, 12, 0, 1, 0, 1, 0, 0, 0, 0x78, 0, 4, 10, 0, 0, 1,
     0xC0, 12, 0, 1, 0, 1, 0, 0, 0, 0x78, 0, 4, 10, 0, 0, 2,
     0xC0, 12, 0, 1, 0, 1, 0, 0]"

text \<open>
  A query with one question and three answers: an A record, an HINFO record whose first
  character string is the single byte 0xFF (not UTF-8) with the correct data length 3, and
  another A record. The second packet holds the same three answers in a response without a
  question.
\<close>

definition hinfo_query_packet :: "byte list" where
  "hinfo_query_packet =
    [0, 0, 0, 0, 0, 1, 0, 3, 0, 0, 0, 0,
     1, 0x61, 0, 0, 1, 0, 1,
     0xC0, 12, 0, 1, 0, 1, 0, 0, 0, 0x78, 0, 4, 10, 0, 0, 1,
     0xC0, 12, 0, 13, 0, 1, 0, 0, 0, 0x78, 0, 3, 1, 0xFF, 0,
     0xC0, 12, 0, 1, 0, 1, 0, 0, 0, 0x78, 0, 4, 10, 0, 0, 3]"

definition hinfo_response_packet :: "byte list" where
  "hinfo_response_packet =
    [0, 0, 0x84, 0, 0, 0, 0, 3, 0, 0, 0, 0,
     1, 0x61, 0, 0, 1, 0, 1, 0, 0, 0, 0x78, 0, 4, 10, 0, 0, 1,
     1, 0x61, 0, 0, 13, 0, 1, 0, 0, 0, 0x78, 0, 3, 1, 0xFF, 0,
     1, 0x61, 0, 0, 1, 0, 1, 0, 0, 0, 0x78, 0, 4, 10, 0, 0, 3]"

text \<open>
  A compression pointer to the offset \<open>t\<close>, and a chain of \<open>k\<close> pointers that starts at the
  offset \<open>off\<close>: each pointer points to the one that follows it, and the pointer after the
  last of them, at \<open>off + 2 * k\<close>, points to itself. \<open>pointer_chain_packet k\<close> is a query
  with one question whose name, at offset 12, is such a chain.
\<close>

definition pointer_to :: "nat \<Rightarrow> byte list" where
  "pointer_to t = [0xC0 OR word_of_nat (t div 256), word_of_nat (t mod 256)]"

fun pointer_chain :: "nat \<Rightarrow> nat \<Rightarrow> byte list" where
  "pointer_chain off 0 = pointer_to off"
| "pointer_chain off (Suc k) = pointer_to (off + 2) @ pointer_chain (off + 2) k"

definition pointer_chain_packet :: "nat \<Rightarrow> byte list" where
  "pointer_chain_packet k = [0, 0, 0, 0, 0, 1, 0, 0, 0, 0, 0, 0] @ pointer_chain 12 k"

section \<open>Properties\<close>

text \<open>
  The two recursive loops are unfolded by hand in the proofs below. \<open>decoder_defs\<close> collects
  the equations that evaluate the decoder on a concrete packet.
\<close>

declare decode_labels_at_offset.simps [simp del]
declare read_bitmap_loop.simps [simp del]

lemma read_others_loop_Suc_eq:
  "n = Suc k \<Longrightarrow> read_others_loop n s =
    (case read_name s of
       (Inl e, s1) \<Rightarrow> (Inl e, s1)
     | (Inr domain, s1) \<Rightarrow>
         (case UNPACK_HHiH (data s1) (offset s1) of
            Inl e \<Rightarrow> (Inl e, s1)
          | Inr (rtype, rclass, ttl, len) \<Rightarrow>
              let s2 = s1\<lparr>offset := offset s1 + 10\<rparr>;
                  end_off = offset s2 + unat len
              in (case read_record domain rtype rclass ttl (unat len) s2 of
                    (Inl e, s3) \<Rightarrow>
                      if e \<in> DECODE_EXCEPTIONS
                      then read_others_loop k (s3\<lparr>offset := end_off\<rparr>)
                      else (Inl e, s3)
                  | (Inr None, s3) \<Rightarrow> read_others_loop k s3
                  | (Inr (Some rec), s3) \<Rightarrow>
                      read_others_loop k (s3\<lparr>answers := answers s3 @ [rec]\<rparr>))))"
  by simp

lemma read_questions_loop_Suc_eq:
  "n = Suc k \<Longrightarrow> read_questions_loop n acc s =
    (case read_name s of
       (Inl e, s1) \<Rightarrow> (Inl e, s1)
     | (Inr name, s1) \<Rightarrow>
         (case unpack UNPACK_HH 4 s1 of
            (Inl e, s2) \<Rightarrow> (Inl e, s2)
          | (Inr (rtype, rclass), s2) \<Rightarrow>
              read_questions_loop k (acc @ [DNSQuestion name rtype rclass]) s2))"
  by simp

lemmas read_others_loop_numeral = read_others_loop_Suc_eq [OF numeral_eq_Suc]

lemmas read_questions_loop_numeral = read_questions_loop_Suc_eq [OF numeral_eq_Suc]

lemmas decoder_defs =
  Let_def read_others_loop_numeral read_questions_loop_numeral
  DNSIncoming_def init_slots_def initial_parse_def read_header_def unpack_def
  UNPACK_6H_def UNPACK_3H_def UNPACK_HH_def UNPACK_HHiH_def unpack_from_def u16_def i32_def
  read_questions_def read_others_def read_name_def read_record_def read_string_def
  read_character_string_def read_bitmap_def get_answers_def
  DECODE_EXCEPTIONS_def DNS_COMPRESSION_HEADER_LEN_def DNS_COMPRESSION_POINTER_LEN_def
  MAX_DNS_LABELS_def MAX_NAME_LENGTH_def
  TYPE_A_def TYPE_CNAME_def TYPE_PTR_def TYPE_HINFO_def TYPE_TXT_def TYPE_AAAA_def
  TYPE_SRV_def TYPE_NSEC_def
  decode_labels_at_offset.simps read_bitmap_loop.simps
  utf8_step_def is_continuation_def bitmap_window_def bitmap_byte_def

subsection \<open>Name decompression and the cache\<close>

lemma labels_at_bound: "labels_at buf n off ls ts \<Longrightarrow> off < n"
  by (induction rule: labels_at.induct) auto

lemma labels_at_det:
  "labels_at buf n off ls ts \<Longrightarrow> labels_at buf n off ls' ts' \<Longrightarrow> ls = ls' \<and> ts = ts'"
proof (induction arbitrary: ls' ts' rule: labels_at.induct)
  case (root off)
  note h = root.hyps
  from root.prems show ?case
  proof (cases rule: labels_at.cases)
    case root
    then show ?thesis by simp
  next
    case (label len ls2)
    with h show ?thesis by simp
  next
    case (pointer link ts2)
    with h show ?thesis by simp
  qed
next
  case (label off len ls ts)
  note h = label.hyps and ih = label.IH
  from label.prems show ?case
  proof (cases rule: labels_at.cases)
    case root
    with h show ?thesis by simp
  next
    case (label len2 ls2)
    with h have "labels_at buf n (off + 1 + len) ls2 ts'" by simp
    from ih [OF this] label h show ?thesis by simp
  next
    case (pointer link ts2)
    with h show ?thesis by simp
  qed
next
  case (pointer off link ls ts)
  note h = pointer.hyps and ih = pointer.IH
  from pointer.prems show ?case
  proof (cases rule: labels_at.cases)
    case root
    with h show ?thesis by simp
  next
    case (label len2 ls2)
    with h show ?thesis by simp
  next
    case (pointer link2 ts2)
    with h have "labels_at buf n link ls' ts2" by simp
    from ih [OF this] pointer h show ?thesis by simp
  qed
qed

lemma labels_at_sub:
  "labels_at buf n off ls ts \<Longrightarrow> x \<in> set ts
     \<Longrightarrow> \<exists>ls2 ts2. labels_at buf n x ls2 ts2 \<and> length ts2 < length ts"
proof (induction rule: labels_at.induct)
  case (root off)
  then show ?case by simp
next
  case (label off len ls ts)
  then show ?case by simp
next
  case (pointer off link ls ts)
  show ?case
  proof (cases "x = link")
    case True
    with pointer.hyps show ?thesis by auto
  next
    case False
    with pointer.prems pointer.IH show ?thesis by fastforce
  qed
qed

lemma labels_at_fresh: "labels_at buf n off ls ts \<Longrightarrow> off \<notin> set ts"
proof
  assume a: "labels_at buf n off ls ts" and "off \<in> set ts"
  from labels_at_sub [OF this] obtain ls2 ts2
    where "labels_at buf n off ls2 ts2" "length ts2 < length ts" by blast
  with labels_at_det [OF a] show False by auto
qed

lemma cache_sem_upd:
  "cache_sem buf n c \<Longrightarrow> labels_at buf n k ls ts \<Longrightarrow> (ts \<noteq> [] \<longrightarrow> length ls \<le> MAX_DNS_LABELS)
     \<Longrightarrow> cache_sem buf n (c(k \<mapsto> ls))"
  unfolding cache_sem_def by auto

lemma decode_root:
  assumes "off < n" and "off < length buf" and "unat (buf ! off) = 0"
  shows "decode_labels_at_offset buf n cache off labels seen room
           = (Inr (off + 1, labels), cache)"
  using assms
  by (subst decode_labels_at_offset.simps) (simp add: DNS_COMPRESSION_HEADER_LEN_def)

lemma decode_label:
  assumes "off < n" and "off < length buf" and "len = unat (buf ! off)"
    and "0 < len" and "len < 0x40"
  shows "decode_labels_at_offset buf n cache off labels seen room
           = decode_labels_at_offset buf n cache (off + 1 + len)
               (labels @ [decode_replace (take len (drop (off + 1) buf))]) seen room"
  using assms
  by (subst decode_labels_at_offset.simps)
    (simp add: DNS_COMPRESSION_HEADER_LEN_def Let_def)

lemma decode_hit:
  assumes "off < n" and "off + 1 < length buf" and "0xC0 \<le> unat (buf ! off)"
    and "link = unat (buf ! off AND 0x3F) * 256 + unat (buf ! (off + 1))"
    and "link \<le> n" and "link \<noteq> off" and "link \<notin> seen"
    and "cache link = Some linked" and "linked \<noteq> []"
  shows "decode_labels_at_offset buf n cache off labels seen room
           = (if length (labels @ linked) > MAX_DNS_LABELS then Inl IncomingDecodeError
              else Inr (off + 2, labels @ linked), cache)"
  using assms
  by (subst decode_labels_at_offset.simps)
    (simp add: DNS_COMPRESSION_POINTER_LEN_def Let_def)

lemma decode_miss:
  assumes "off < n" and "off + 1 < length buf" and "0xC0 \<le> unat (buf ! off)"
    and "link = unat (buf ! off AND 0x3F) * 256 + unat (buf ! (off + 1))"
    and "link \<le> n" and "link \<noteq> off" and "link \<notin> seen"
    and "cache link = None \<or> cache link = Some []" and "0 < room"
  shows "decode_labels_at_offset buf n cache off labels seen room
           = (case decode_labels_at_offset buf n cache link [] (insert link seen) (room - 1) of
                (Inl e, c1) \<Rightarrow> (Inl e, c1)
              | (Inr (off1, l1), c1) \<Rightarrow>
                  (if length (labels @ l1) > MAX_DNS_LABELS then Inl IncomingDecodeError
                   else Inr (off + 2, labels @ l1), c1(link \<mapsto> l1)))"
  using assms
  by (subst decode_labels_at_offset.simps)
    (auto simp add: DNS_COMPRESSION_POINTER_LEN_def Let_def split: prod.splits sum.splits)

lemma decode_no_room:
  assumes "off < n" and "off + 1 < length buf" and "0xC0 \<le> unat (buf ! off)"
    and "link = unat (buf ! off AND 0x3F) * 256 + unat (buf ! (off + 1))"
    and "link \<le> n" and "link \<noteq> off" and "link \<notin> seen"
    and "cache link = None \<or> cache link = Some []"
  shows "decode_labels_at_offset buf n cache off labels seen 0 = (Inl RecursionError, cache)"
  using assms
  by (subst decode_labels_at_offset.simps) (auto simp add: Let_def)

lemma decode_stop:
  assumes "\<not> off < n \<or> length buf \<le> off
           \<or> (0x40 \<le> unat (buf ! off) \<and> unat (buf ! off) < 0xC0)
           \<or> (0xC0 \<le> unat (buf ! off)
               \<and> (length buf \<le> off + 1
                  \<or> n < unat (buf ! off AND 0x3F) * 256 + unat (buf ! (off + 1))
                  \<or> unat (buf ! off AND 0x3F) * 256 + unat (buf ! (off + 1)) = off
                  \<or> unat (buf ! off AND 0x3F) * 256 + unat (buf ! (off + 1)) \<in> seen))"
  shows "\<exists>e. decode_labels_at_offset buf n cache off labels seen room = (Inl e, cache)"
  using assms
  by (subst decode_labels_at_offset.simps) (auto simp add: Let_def)

lemma decode_cases:
  fixes buf :: "byte list"
  obtains (stop) "\<not> off < n \<or> length buf \<le> off
           \<or> (0x40 \<le> unat (buf ! off) \<and> unat (buf ! off) < 0xC0)
           \<or> (0xC0 \<le> unat (buf ! off)
               \<and> (length buf \<le> off + 1
                  \<or> n < unat (buf ! off AND 0x3F) * 256 + unat (buf ! (off + 1))
                  \<or> unat (buf ! off AND 0x3F) * 256 + unat (buf ! (off + 1)) = off
                  \<or> unat (buf ! off AND 0x3F) * 256 + unat (buf ! (off + 1)) \<in> seen))"
  | (root) "off < n" "off < length buf" "unat (buf ! off) = 0"
  | (label) "off < n" "off < length buf" "0 < unat (buf ! off)" "unat (buf ! off) < 0x40"
  | (hit) linked where "off < n" "off + 1 < length buf" "0xC0 \<le> unat (buf ! off)"
      "unat (buf ! off AND 0x3F) * 256 + unat (buf ! (off + 1)) \<le> n"
      "unat (buf ! off AND 0x3F) * 256 + unat (buf ! (off + 1)) \<noteq> off"
      "unat (buf ! off AND 0x3F) * 256 + unat (buf ! (off + 1)) \<notin> seen"
      "cache (unat (buf ! off AND 0x3F) * 256 + unat (buf ! (off + 1))) = Some linked"
      "linked \<noteq> []"
  | (miss) "off < n" "off + 1 < length buf" "0xC0 \<le> unat (buf ! off)"
      "unat (buf ! off AND 0x3F) * 256 + unat (buf ! (off + 1)) \<le> n"
      "unat (buf ! off AND 0x3F) * 256 + unat (buf ! (off + 1)) \<noteq> off"
      "unat (buf ! off AND 0x3F) * 256 + unat (buf ! (off + 1)) \<notin> seen"
      "cache (unat (buf ! off AND 0x3F) * 256 + unat (buf ! (off + 1))) = None
       \<or> cache (unat (buf ! off AND 0x3F) * 256 + unat (buf ! (off + 1))) = Some []"
proof -
  define link where "link = unat (buf ! off AND 0x3F) * 256 + unat (buf ! (off + 1))"
  define len where "len = unat (buf ! off)"
  show ?thesis
  proof (cases "off < n \<and> off < length buf")
    case False
    then show ?thesis using stop by auto
  next
    case True
    note t = this
    show ?thesis
    proof (cases "len = 0")
      case True
      with t show ?thesis using root unfolding len_def by auto
    next
      case False
      note nz = this
      show ?thesis
      proof (cases "len < 0x40")
        case True
        with t nz show ?thesis using label unfolding len_def by auto
      next
        case False
        note big = this
        show ?thesis
        proof (cases "len < 0xC0 \<or> length buf \<le> off + 1 \<or> n < link \<or> link = off \<or> link \<in> seen")
          case True
          with big show ?thesis using stop unfolding len_def link_def
            by (metis leI)
        next
          case False
          note ok = this
          show ?thesis
          proof (cases "cache link")
            case None
            with t ok show ?thesis using miss unfolding len_def link_def by auto
          next
            case (Some linked)
            show ?thesis
            proof (cases "linked = []")
              case True
              with Some t ok show ?thesis using miss unfolding len_def link_def by auto
            next
              case False
              with Some t ok show ?thesis using hit [of linked] unfolding len_def link_def
                by auto
            qed
          qed
        qed
      qed
    qed
  qed
qed

lemma decode_sound:
  assumes "cache_sem buf n c"
    and "decode_labels_at_offset buf n c off labels seen room = (r, c')"
  shows "cache_sem buf n c'
         \<and> (\<forall>off1 ls. r = Inr (off1, ls) \<longrightarrow>
               (\<exists>ls' ts. ls = labels @ ls' \<and> labels_at buf n off ls' ts
                  \<and> (ts \<noteq> [] \<longrightarrow> length ls \<le> MAX_DNS_LABELS)))"
  using assms
proof (induction buf n c off labels seen room arbitrary: r c'
    rule: decode_labels_at_offset.induct)
  case (1 buf n cache off labels seen room)
  note sem = "1.prems"(1) and run = "1.prems"(2)
  let ?len = "unat (buf ! off)"
  let ?link = "unat (buf ! off AND 0x3F) * 256 + unat (buf ! (off + 1))"
  show ?case
  proof (cases rule: decode_cases [where off = off and n = n and buf = buf and seen = seen
        and cache = cache])
    case stop
    from decode_stop [OF stop, of cache labels room] run sem show ?thesis
      by auto
  next
    case root
    from decode_root [OF root, of cache labels seen room] run
    have "c' = cache" "r = Inr (off + 1, labels)" by simp_all
    moreover from root have "labels_at buf n off [] []"
      by (intro labels_at.root)
    ultimately show ?thesis using sem by auto
  next
    case label
    let ?l = "decode_replace (take ?len (drop (off + 1) buf))"
    from decode_label [OF label(1,2) refl label(3,4), of cache labels seen room] run
    have run1: "decode_labels_at_offset buf n cache (off + 1 + ?len) (labels @ [?l]) seen room
                  = (r, c')"
      by simp
    from "1.IH"(1) [of ?len "off + DNS_COMPRESSION_HEADER_LEN" r c'] label sem run1
    have ih: "cache_sem buf n c'
         \<and> (\<forall>off1 ls. r = Inr (off1, ls) \<longrightarrow>
               (\<exists>ls' ts. ls = (labels @ [?l]) @ ls'
                  \<and> labels_at buf n (off + 1 + ?len) ls' ts
                  \<and> (ts \<noteq> [] \<longrightarrow> length ls \<le> MAX_DNS_LABELS)))"
      by (simp add: DNS_COMPRESSION_HEADER_LEN_def)
    show ?thesis
    proof (intro conjI allI impI)
      from ih show "cache_sem buf n c'" by simp
      fix off1 ls assume "r = Inr (off1, ls)"
      with ih obtain ls' ts where a: "ls = (labels @ [?l]) @ ls'"
        and b: "labels_at buf n (off + 1 + ?len) ls' ts"
        and c: "ts \<noteq> [] \<longrightarrow> length ls \<le> MAX_DNS_LABELS"
        by blast
      from label b have "labels_at buf n off (?l # ls') ts"
        by (intro labels_at.label) simp_all
      with a c show "\<exists>ls' ts. ls = labels @ ls' \<and> labels_at buf n off ls' ts
                  \<and> (ts \<noteq> [] \<longrightarrow> length ls \<le> MAX_DNS_LABELS)"
        by auto
    qed
  next
    case (hit linked)
    from hit sem obtain ts where ts: "labels_at buf n ?link linked ts"
      unfolding cache_sem_def by blast
    from hit ts have at: "labels_at buf n off linked (?link # ts)"
      by (intro labels_at.pointer) simp_all
    from decode_hit [where link = ?link and cache = cache and labels = labels
        and room = room, OF hit(1-3) refl hit(4-8)] run
    have res: "c' = cache"
        "r = (if length (labels @ linked) > MAX_DNS_LABELS then Inl IncomingDecodeError
              else Inr (off + 2, labels @ linked))"
      by simp_all
    show ?thesis
    proof (cases "length (labels @ linked) > MAX_DNS_LABELS")
      case True
      with res sem show ?thesis by simp
    next
      case False
      with res sem at show ?thesis by auto
    qed
  next
    case miss
    show ?thesis
    proof (cases "room = 0")
      case True
      from decode_no_room [where link = ?link and cache = cache and labels = labels,
          OF miss(1-3) refl miss(4-7)] run True
      have "c' = cache" "r = Inl RecursionError" by simp_all
      with sem show ?thesis by simp
    next
      case False
      then have pos: "0 < room" by simp
    obtain r1 c1 where run1:
      "decode_labels_at_offset buf n cache ?link [] (insert ?link seen) (room - 1) = (r1, c1)"
      by (cases "decode_labels_at_offset buf n cache ?link [] (insert ?link seen) (room - 1)")
    from miss have e: "(case cache ?link of None \<Rightarrow> [] | Some ls \<Rightarrow> ls) = []"
      by auto
    from "1.IH"(2) [of ?len ?link "[]" r1 c1] miss e sem run1 pos
    have ih: "cache_sem buf n c1
         \<and> (\<forall>off1 ls. r1 = Inr (off1, ls) \<longrightarrow>
               (\<exists>ls' ts. ls = [] @ ls' \<and> labels_at buf n ?link ls' ts
                  \<and> (ts \<noteq> [] \<longrightarrow> length ls \<le> MAX_DNS_LABELS)))"
      by simp
    note eq = decode_miss [where link = ?link and cache = cache and labels = labels,
        OF miss(1-3) refl miss(4-7) pos]
    show ?thesis
    proof (cases r1)
      case (Inl e)
      with eq run run1 have "c' = c1" "r = Inl e" by simp_all
      with ih show ?thesis by simp
    next
      case (Inr p)
      obtain off1 l1 where p: "p = (off1, l1)" by (cases p)
      with ih Inr obtain ts where ts: "labels_at buf n ?link l1 ts"
        and cap: "ts \<noteq> [] \<longrightarrow> length l1 \<le> MAX_DNS_LABELS"
        by auto
      from miss ts have at: "labels_at buf n off l1 (?link # ts)"
        by (intro labels_at.pointer) simp_all
      from eq Inr p run run1 have res: "c' = c1(?link \<mapsto> l1)"
        "r = (if length (labels @ l1) > MAX_DNS_LABELS then Inl IncomingDecodeError
              else Inr (off + 2, labels @ l1))"
        by simp_all
      from ih ts cap have "cache_sem buf n (c1(?link \<mapsto> l1))"
        by (intro cache_sem_upd) auto
      with res(1) have c2: "cache_sem buf n c'"
        by (simp only:)
      show ?thesis
      proof (cases "length (labels @ l1) > MAX_DNS_LABELS")
        case True
        with res(2) c2 show ?thesis by simp
      next
        case False
        with res(2) c2 at show ?thesis by auto
      qed
    qed
    qed
  qed
qed

text \<open>The room a name needs is at most the number of pointers that reading it follows.\<close>

lemma decode_complete:
  assumes "labels_at buf n off ls ts" and "cache_sem buf n c" and "set ts \<inter> seen = {}"
    and "ts \<noteq> [] \<longrightarrow> length (labels @ ls) \<le> MAX_DNS_LABELS"
    and "length ts \<le> room"
  shows "\<exists>off1 c'. decode_labels_at_offset buf n c off labels seen room
                     = (Inr (off1, labels @ ls), c')"
  using assms
proof (induction arbitrary: labels seen room rule: labels_at.induct)
  case (root off)
  from decode_root [OF root.hyps, of c labels seen room] show ?case
    by simp
next
  case (label off len ls ts)
  let ?l = "decode_replace (take len (drop (off + 1) buf))"
  from label.prems have "ts \<noteq> [] \<longrightarrow> length ((labels @ [?l]) @ ls) \<le> MAX_DNS_LABELS"
    by simp
  from label.IH [OF label.prems(1,2) this label.prems(4)]
    decode_label [OF label.hyps(1-5), of c labels seen room]
  show ?case by simp
next
  case (pointer off link ls ts)
  note h = pointer.hyps
  have at: "labels_at buf n off ls (link # ts)"
    by (rule labels_at.pointer [OF h(1-5)])
  from labels_at_bound [OF h(5)] have b: "link \<le> n" by simp
  from labels_at_fresh [OF at] have ne: "link \<noteq> off" by auto
  from pointer.prems(2) have ns: "link \<notin> seen" by auto
  from pointer.prems(3) have cap: "length (labels @ ls) \<le> MAX_DNS_LABELS" by simp
  from pointer.prems(4) have pos: "0 < room" and rm: "length ts \<le> room - 1" by simp_all
  show ?case
  proof (cases "\<exists>linked. c link = Some linked \<and> linked \<noteq> []")
    case True
    then obtain linked where lk: "c link = Some linked" "linked \<noteq> []" by blast
    with pointer.prems(1) obtain ts' where "labels_at buf n link linked ts'"
      unfolding cache_sem_def by blast
    from labels_at_det [OF this h(5)] have "linked = ls" by simp
    with decode_hit [where cache = c and link = link and labels = labels and room = room,
        OF h(1-4) b ne ns lk] cap show ?thesis
      by simp
  next
    case False
    then have miss: "c link = None \<or> c link = Some []"
      by (cases "c link") auto
    from labels_at_fresh [OF h(5)] pointer.prems(2)
    have d: "set ts \<inter> insert link seen = {}" by auto
    from cap have "ts \<noteq> [] \<longrightarrow> length ([] @ ls) \<le> MAX_DNS_LABELS" by simp
    from pointer.IH [OF pointer.prems(1) d this rm] obtain off1 c1
      where "decode_labels_at_offset buf n c link [] (insert link seen) (room - 1)
               = (Inr (off1, ls), c1)"
      by auto
    with decode_miss [where cache = c and link = link and labels = labels,
        OF h(1-4) b ne ns miss pos] cap show ?thesis
      by simp
  qed
qed

lemma cache_sem_empty: "cache_sem buf n Map.empty"
  by (simp add: cache_sem_def)

lemma cache_sound_iff_sem: "cache_sound buf n c \<longleftrightarrow> cache_sem buf n c"
proof
  assume s: "cache_sound buf n c"
  show "cache_sem buf n c"
    unfolding cache_sem_def
  proof (intro allI impI)
    fix k ls assume "c k = Some ls"
    with s obtain room off1 c1
      where "decode_labels_at_offset buf n Map.empty k [] {} room = (Inr (off1, ls), c1)"
      unfolding cache_sound_def by blast
    from decode_sound [OF cache_sem_empty this]
    show "\<exists>ts. labels_at buf n k ls ts \<and> (ts \<noteq> [] \<longrightarrow> length ls \<le> MAX_DNS_LABELS)"
      by auto
  qed
next
  assume s: "cache_sem buf n c"
  show "cache_sound buf n c"
    unfolding cache_sound_def
  proof (intro allI impI)
    fix k ls assume "c k = Some ls"
    with s obtain ts where "labels_at buf n k ls ts"
      and "ts \<noteq> [] \<longrightarrow> length ls \<le> MAX_DNS_LABELS"
      unfolding cache_sem_def by blast
    from decode_complete [OF this(1) cache_sem_empty, of "{}" "[]" "length ts"] this(2)
    show "\<exists>room off1 c1.
            decode_labels_at_offset buf n Map.empty k [] {} room = (Inr (off1, ls), c1)"
      by auto
  qed
qed

lemma decode_keeps_cache_sound:
  assumes "cache_sound buf n c"
    and "decode_labels_at_offset buf n c off labels seen room = (r, c')"
  shows "cache_sound buf n c'"
  using decode_sound [OF _ assms(2)] assms(1) unfolding cache_sound_iff_sem by blast

lemma labels_at_pointer_iff:
  assumes "pointer_at buf n off link"
  shows "labels_at buf n off ls ts \<longleftrightarrow> (\<exists>ts'. ts = link # ts' \<and> labels_at buf n link ls ts')"
proof
  assume "labels_at buf n off ls ts"
  then show "\<exists>ts'. ts = link # ts' \<and> labels_at buf n link ls ts'"
  proof (cases rule: labels_at.cases)
    case root
    with assms show ?thesis by (simp add: pointer_at_def)
  next
    case (label len ls2)
    with assms show ?thesis by (simp add: pointer_at_def)
  next
    case (pointer link2 ts2)
    with assms show ?thesis by (simp add: pointer_at_def)
  qed
next
  assume "\<exists>ts'. ts = link # ts' \<and> labels_at buf n link ls ts'"
  with assms show "labels_at buf n off ls ts"
    unfolding pointer_at_def by (auto intro: labels_at.pointer)
qed

lemma direct_iff_labels_at:
  "(\<exists>room off1 c1. decode_labels_at_offset buf n Map.empty off [] {} room = (Inr (off1, ls), c1))
     \<longleftrightarrow> (\<exists>ts. labels_at buf n off ls ts \<and> (ts \<noteq> [] \<longrightarrow> length ls \<le> MAX_DNS_LABELS))"
proof
  assume "\<exists>room off1 c1.
            decode_labels_at_offset buf n Map.empty off [] {} room = (Inr (off1, ls), c1)"
  then obtain room off1 c1
    where "decode_labels_at_offset buf n Map.empty off [] {} room = (Inr (off1, ls), c1)"
    by blast
  from decode_sound [OF cache_sem_empty this]
  show "\<exists>ts. labels_at buf n off ls ts \<and> (ts \<noteq> [] \<longrightarrow> length ls \<le> MAX_DNS_LABELS)"
    by auto
next
  assume "\<exists>ts. labels_at buf n off ls ts \<and> (ts \<noteq> [] \<longrightarrow> length ls \<le> MAX_DNS_LABELS)"
  then obtain ts where "labels_at buf n off ls ts"
    and "ts \<noteq> [] \<longrightarrow> length ls \<le> MAX_DNS_LABELS" by blast
  from decode_complete [OF this(1) cache_sem_empty, of "{}" "[]" "length ts"] this(2)
  show "\<exists>room off1 c1.
          decode_labels_at_offset buf n Map.empty off [] {} room = (Inr (off1, ls), c1)"
    by auto
qed

subsection \<open>Flag accessors\<close>

lemma and_exp_eq_exp_iff:
  "n < LENGTH('a::len) \<Longrightarrow> (w AND (2 ^ n :: 'a word) = 2 ^ n) = bit w n"
proof
  assume n: "n < LENGTH('a)" and "w AND 2 ^ n = 2 ^ n"
  then have "bit (w AND 2 ^ n) n = bit (2 ^ n :: 'a word) n" by simp
  with n show "bit w n" by (simp add: bit_and_iff bit_exp_iff)
next
  assume n: "n < LENGTH('a)" and "bit w n"
  then show "w AND 2 ^ n = 2 ^ n"
    by (intro bit_eqI) (auto simp add: bit_and_iff bit_exp_iff)
qed

lemma qr_clear_iff: "(w AND (0x8000 :: 16 word) = 0) = (\<not> bit w 15)"
  using and_exp_eq_0_iff_not_bit [of w 15] by simp

lemma qr_set_iff: "(w AND (0x8000 :: 16 word) = 0x8000) = bit w 15"
  using and_exp_eq_exp_iff [of 15 w] by simp

lemma tc_set_iff: "(w AND (0x0200 :: 16 word) = 0x0200) = bit w 9"
  using and_exp_eq_exp_iff [of 9 w] by simp

text \<open>
  Claim C8, as stated, fails: the QR mask is the single bit 15, so a header whose two top
  flag bits are 01 (flags 0x4000) is a query, and one whose two top bits are 11 (flags
  0xC000) is a response. The triples are the flags, \<open>is_query\<close> and \<open>is_response\<close> of the
  messages decoded from two 12-byte headers.
\<close>

theorem qr_second_bit_ignored_counterexample:
  "map_sum id (\<lambda>m. (flags m, is_query m, is_response m))
     (DNSIncoming [0, 0, 0x40, 0, 0, 0, 0, 0, 0, 0, 0, 0] None None None 0 1000)
     = Inr (0x4000, True, False)
   \<and> map_sum id (\<lambda>m. (flags m, is_query m, is_response m))
     (DNSIncoming [0, 0, 0xC0, 0, 0, 0, 0, 0, 0, 0, 0, 0] None None None 0 1000)
     = Inr (0xC000, False, True)"
  by (simp add: decoder_defs is_query_def is_response_def FLAGS_QR_MASK_def
        FLAGS_QR_QUERY_def FLAGS_QR_RESPONSE_def)

text \<open>
  Claim C8, amended: for every 16-bit flag value, \<open>is_query\<close> is true exactly when the QR
  bit (bit 15) is clear, \<open>is_response\<close> exactly when it is set, so every flag value makes
  exactly one of the two true; \<open>truncated\<close> is true exactly when the TC bit (bit 9) is set.
\<close>

theorem flag_accessors_follow_qr_and_tc_bit:
  "(is_query s \<longleftrightarrow> \<not> bit (flags s) 15)
   \<and> (is_response s \<longleftrightarrow> bit (flags s) 15)
   \<and> (truncated s \<longleftrightarrow> bit (flags s) 9)"
  by (simp add: is_query_def is_response_def truncated_def FLAGS_QR_MASK_def
        FLAGS_QR_QUERY_def FLAGS_QR_RESPONSE_def FLAGS_TC_def
        qr_clear_iff qr_set_iff tc_set_iff)

subsection \<open>The NSEC bitmap\<close>






subsection \<open>Reads past the end of the buffer\<close>

text \<open>
  Claim C10: \<open>read_string\<close> never raises; it returns the bytes the buffer still holds, at
  most \<open>len\<close> of them and none from the end of the buffer on, and advances the cursor by
  \<open>len\<close>. An A record therefore always decodes to an address record, with fewer than four
  address bytes when the packet ends early (and an AAAA record likewise with up to
  sixteen); the packet above yields a valid message with one address of two bytes.
\<close>

theorem short_reads_are_not_errors:
  "(\<exists>info. read_string len s = (Inr info, s\<lparr>offset := offset s + len\<rparr>)
          \<and> length info = min len (length (data s) - offset s))
   \<and> (\<exists>addr. read_record domain TYPE_A rclass ttl len s
              = (Inr (Some (DNSAddress domain TYPE_A rclass ttl addr (now s) None)),
                 s\<lparr>offset := offset s + 4\<rparr>)
          \<and> length addr = min 4 (length (data s) - offset s))
   \<and> (\<exists>addr. read_record domain TYPE_AAAA rclass ttl len s
              = (Inr (Some (DNSAddress domain TYPE_AAAA rclass ttl addr (now s) (scope_id s))),
                 s\<lparr>offset := offset s + 16\<rparr>)
          \<and> length addr = min 16 (length (data s) - offset s))
   \<and> map_sum id (\<lambda>m. (valid m, answers m))
        (DNSIncoming cut_address_packet None None (Some 1) 0 1000)
       = Inr (True, [DNSAddress [0x61, 46] 1 1 120 [10, 0] 1 None])"
proof (intro conjI)
  show "\<exists>info. read_string len s = (Inr info, s\<lparr>offset := offset s + len\<rparr>)
          \<and> length info = min len (length (data s) - offset s)"
    by (simp add: read_string_def)
  show "\<exists>addr. read_record domain TYPE_A rclass ttl len s
              = (Inr (Some (DNSAddress domain TYPE_A rclass ttl addr (now s) None)),
                 s\<lparr>offset := offset s + 4\<rparr>)
          \<and> length addr = min 4 (length (data s) - offset s)"
    by (simp add: read_record_def read_string_def)
  show "\<exists>addr. read_record domain TYPE_AAAA rclass ttl len s
              = (Inr (Some (DNSAddress domain TYPE_AAAA rclass ttl addr (now s) (scope_id s))),
                 s\<lparr>offset := offset s + 16\<rparr>)
          \<and> length addr = min 16 (length (data s) - offset s)"
    by (simp add: read_record_def read_string_def TYPE_A_def TYPE_CNAME_def TYPE_PTR_def
          TYPE_TXT_def TYPE_SRV_def TYPE_HINFO_def TYPE_AAAA_def)
  show "map_sum id (\<lambda>m. (valid m, answers m))
        (DNSIncoming cut_address_packet None None (Some 1) 0 1000)
       = Inr (True, [DNSAddress [0x61, 46] 1 1 120 [10, 0] 1 None])"
    by (simp add: cut_address_packet_def decoder_defs)
qed

subsection \<open>What the decoding steps leave unchanged\<close>

lemma cursor_moved_refl: "cursor_moved s s"
  unfolding cursor_moved_def
  by (rule exI [of _ "offset s"], rule exI [of _ "name_cache s"]) simp

lemma cursor_moved_trans: "cursor_moved s s1 \<Longrightarrow> cursor_moved s1 s2 \<Longrightarrow> cursor_moved s s2"
proof -
  assume "cursor_moved s s1" and "cursor_moved s1 s2"
  then obtain o1 c1 o2 c2 where a: "s1 = s\<lparr>offset := o1, name_cache := c1\<rparr>"
    and b: "cache_sound (data s) (data_len s) (name_cache s)
              \<longrightarrow> cache_sound (data s) (data_len s) c1"
    and c: "s2 = s1\<lparr>offset := o2, name_cache := c2\<rparr>"
    and d: "cache_sound (data s1) (data_len s1) (name_cache s1)
              \<longrightarrow> cache_sound (data s1) (data_len s1) c2"
    unfolding cursor_moved_def by blast
  from a c have "s2 = s\<lparr>offset := o2, name_cache := c2\<rparr>" by simp
  moreover from a b d have "cache_sound (data s) (data_len s) (name_cache s)
              \<longrightarrow> cache_sound (data s) (data_len s) c2" by simp
  ultimately show ?thesis
    unfolding cursor_moved_def by blast
qed

lemma cursor_moved_offset: "cursor_moved s (s\<lparr>offset := off\<rparr>)"
  unfolding cursor_moved_def
  by (rule exI [of _ off], rule exI [of _ "name_cache s"]) simp

lemma cursor_movedD:
  assumes "cursor_moved s s'"
  shows "valid s' = valid s" "did_read_others s' = did_read_others s"
    "answers s' = answers s" "questions s' = questions s" "data s' = data s"
    "data_len s' = data_len s" "num_questions s' = num_questions s"
    "num_answers s' = num_answers s" "num_authorities s' = num_authorities s"
    "num_additionals s' = num_additionals s" "flags s' = flags s" "now s' = now s"
    "scope_id s' = scope_id s"
    "cache_sound (data s) (data_len s) (name_cache s)
       \<Longrightarrow> cache_sound (data s') (data_len s') (name_cache s')"
  using assms unfolding cursor_moved_def by auto

lemma read_name_frame: "read_name s = (r, s') \<Longrightarrow> cursor_moved s s'"
proof -
  assume run: "read_name s = (r, s')"
  obtain r1 c1 where d: "decode_labels_at_offset (data s) (data_len s) (name_cache s)
                           (offset s) [] {} (stack_room s) = (r1, c1)"
    by (cases "decode_labels_at_offset (data s) (data_len s) (name_cache s) (offset s) [] {}
                 (stack_room s)")
  show ?thesis
  proof (cases r1)
    case (Inl e)
    with run d have "s' = s\<lparr>offset := offset s, name_cache := c1\<rparr>"
      unfolding read_name_def by (simp add: Let_def)
    with decode_keeps_cache_sound [OF _ d] show ?thesis
      unfolding cursor_moved_def by blast
  next
    case (Inr p)
    obtain off labels where p: "p = (off, labels)" by (cases p)
    with run d Inr have s': "s' = s\<lparr>offset := off, name_cache := c1(offset s \<mapsto> labels)\<rparr>"
      unfolding read_name_def by (auto simp: Let_def split: if_splits)
    have "cache_sound (data s) (data_len s) (c1(offset s \<mapsto> labels))"
      if "cache_sound (data s) (data_len s) (name_cache s)"
    proof -
      from that have "cache_sem (data s) (data_len s) (name_cache s)"
        by (simp add: cache_sound_iff_sem)
      from decode_sound [OF this d] Inr p
      show ?thesis
        unfolding cache_sound_iff_sem by (auto intro: cache_sem_upd)
    qed
    with s' show ?thesis
      unfolding cursor_moved_def by blast
  qed
qed

lemma unpack_frame: "unpack u n s = (r, s') \<Longrightarrow> cursor_moved s s'"
  unfolding unpack_def by (auto simp: Let_def cursor_moved_offset)

lemma read_string_frame: "read_string n s = (r, s') \<Longrightarrow> cursor_moved s s'"
  unfolding read_string_def by (auto simp: Let_def cursor_moved_offset)

lemma read_character_string_frame: "read_character_string s = (r, s') \<Longrightarrow> cursor_moved s s'"
  unfolding read_character_string_def read_string_def
  by (auto simp: Let_def cursor_moved_offset cursor_moved_refl split: if_splits)

lemma read_bitmap_loop_frame: "read_bitmap_loop e acc s = (r, s') \<Longrightarrow> cursor_moved s s'"
proof (induction e acc s rule: read_bitmap_loop.induct)
  case (1 e acc s)
  show ?case
  proof (cases "offset s < e \<and> offset s + 1 < length (data s)")
    case True
    let ?bl = "unat (data s ! (offset s + 1))"
    let ?s1 = "s\<lparr>offset := offset s + 2 + ?bl\<rparr>"
    let ?acc1 = "bitmap_window (unat (data s ! offset s))
                   (take ?bl (drop (offset s + 2) (data s))) acc"
    from True 1(2) have "read_bitmap_loop e ?acc1 ?s1 = (r, s')"
      by (subst (asm) read_bitmap_loop.simps) (simp add: Let_def)
    with True have "cursor_moved ?s1 s'"
      by (intro 1(1) [OF _ _ refl _ refl refl]) auto
    then show ?thesis
      using cursor_moved_offset cursor_moved_trans by blast
  next
    case False
    with 1(2) have "s' = s"
      by (subst (asm) read_bitmap_loop.simps) (auto simp: Let_def split: if_splits)
    then show ?thesis by (simp add: cursor_moved_refl)
  qed
qed

lemma read_bitmap_frame: "read_bitmap e s = (r, s') \<Longrightarrow> cursor_moved s s'"
  unfolding read_bitmap_def by (rule read_bitmap_loop_frame)

lemma read_record_frame: "read_record d t c ttl len s = (r, s') \<Longrightarrow> cursor_moved s s'"
  unfolding read_record_def
  by (auto simp: Let_def cursor_moved_offset split: if_splits prod.splits sum.splits
      dest!: read_name_frame unpack_frame read_string_frame read_character_string_frame
             read_bitmap_frame
      intro: cursor_moved_trans)

lemma answers_grownD:
  assumes "answers_grown s s'"
  shows "valid s' = valid s" "did_read_others s' = did_read_others s"
    "questions s' = questions s" "data s' = data s"
    "data_len s' = data_len s" "num_questions s' = num_questions s"
    "num_answers s' = num_answers s" "num_authorities s' = num_authorities s"
    "num_additionals s' = num_additionals s" "flags s' = flags s" "now s' = now s"
    "scope_id s' = scope_id s" "\<exists>rs. answers s' = answers s @ rs"
    "cache_sound (data s) (data_len s) (name_cache s)
       \<Longrightarrow> cache_sound (data s') (data_len s') (name_cache s')"
  using assms unfolding answers_grown_def by auto

lemma cursor_moved_grown: "cursor_moved s s' \<Longrightarrow> answers_grown s s'"
proof -
  assume "cursor_moved s s'"
  then obtain off c where "s' = s\<lparr>offset := off, name_cache := c\<rparr>"
    and k: "cache_sound (data s) (data_len s) (name_cache s)
              \<longrightarrow> cache_sound (data s) (data_len s) c"
    unfolding cursor_moved_def by blast
  then have "s' = s\<lparr>offset := off, name_cache := c, answers := answers s @ []\<rparr>"
    by simp
  with k show ?thesis
    unfolding answers_grown_def by blast
qed

lemma answers_grown_trans:
  "answers_grown s s1 \<Longrightarrow> answers_grown s1 s2 \<Longrightarrow> answers_grown s s2"
proof -
  assume "answers_grown s s1" and "answers_grown s1 s2"
  then obtain o1 c1 r1 o2 c2 r2
    where a: "s1 = s\<lparr>offset := o1, name_cache := c1, answers := answers s @ r1\<rparr>"
    and b: "cache_sound (data s) (data_len s) (name_cache s)
              \<longrightarrow> cache_sound (data s) (data_len s) c1"
    and c: "s2 = s1\<lparr>offset := o2, name_cache := c2, answers := answers s1 @ r2\<rparr>"
    and d: "cache_sound (data s1) (data_len s1) (name_cache s1)
              \<longrightarrow> cache_sound (data s1) (data_len s1) c2"
    unfolding answers_grown_def by blast
  from a c have "s2 = s\<lparr>offset := o2, name_cache := c2, answers := answers s @ (r1 @ r2)\<rparr>"
    by simp
  moreover from a b d have "cache_sound (data s) (data_len s) (name_cache s)
              \<longrightarrow> cache_sound (data s) (data_len s) c2" by simp
  ultimately show ?thesis
    unfolding answers_grown_def by blast
qed

lemma answers_grown_append: "answers_grown s (s\<lparr>answers := answers s @ [r]\<rparr>)"
proof -
  have "s\<lparr>answers := answers s @ [r]\<rparr>
        = s\<lparr>offset := offset s, name_cache := name_cache s, answers := answers s @ [r]\<rparr>"
    by simp
  then show ?thesis
    unfolding answers_grown_def by blast
qed

lemma read_others_loop_frame: "read_others_loop n s = (r, s') \<Longrightarrow> answers_grown s s'"
proof (induction n arbitrary: s)
  case 0
  then show ?case by (simp add: cursor_moved_grown cursor_moved_refl)
next
  case (Suc k)
  obtain r1 s1 where rn: "read_name s = (r1, s1)" by (cases "read_name s")
  then have f1: "answers_grown s s1"
    by (intro cursor_moved_grown read_name_frame)
  show ?case
  proof (cases r1)
    case (Inl e)
    with Suc.prems rn f1 show ?thesis by simp
  next
    case (Inr domain)
    show ?thesis
    proof (cases "UNPACK_HHiH (data s1) (offset s1)")
      case (Inl e)
      with Suc.prems rn Inr f1 show ?thesis by simp
    next
      case up: (Inr pre)
      obtain rtype rclass ttl len where pre: "pre = (rtype, rclass, ttl, len)"
        by (cases pre)
      let ?s2 = "s1\<lparr>offset := offset s1 + 10\<rparr>"
      obtain r3 s3 where rr: "read_record domain rtype rclass ttl (unat len) ?s2 = (r3, s3)"
        by (cases "read_record domain rtype rclass ttl (unat len) ?s2")
      have f3: "answers_grown s s3"
        using f1 cursor_moved_grown [OF cursor_moved_offset, of s1 "offset s1 + 10"]
          cursor_moved_grown [OF read_record_frame [OF rr]] answers_grown_trans
        by blast
      have step: "\<And>t. answers_grown s3 t \<Longrightarrow> read_others_loop k t = (r, s')
                    \<Longrightarrow> answers_grown s s'"
        using Suc.IH f3 answers_grown_trans by blast
      show ?thesis
      proof (cases r3)
        case (Inl e)
        show ?thesis
        proof (cases "e \<in> DECODE_EXCEPTIONS")
          case True
          with Suc.prems rn Inr up pre rr Inl
          have "read_others_loop k (s3\<lparr>offset := offset ?s2 + unat len\<rparr>) = (r, s')"
            by (simp add: Let_def)
          then show ?thesis
            using step cursor_moved_grown [OF cursor_moved_offset] by blast
        next
          case False
          with Suc.prems rn Inr up pre rr Inl have "s' = s3"
            by (simp add: Let_def)
          with f3 show ?thesis by simp
        qed
      next
        case rec: (Inr ro)
        show ?thesis
        proof (cases ro)
          case None
          with Suc.prems rn Inr up pre rr rec have "read_others_loop k s3 = (r, s')"
            by (simp add: Let_def)
          then show ?thesis
            using step cursor_moved_grown [OF cursor_moved_refl] by blast
        next
          case (Some rcd)
          with Suc.prems rn Inr up pre rr rec
          have "read_others_loop k (s3\<lparr>answers := answers s3 @ [rcd]\<rparr>) = (r, s')"
            by (simp add: Let_def)
          then show ?thesis
            using step answers_grown_append by blast
        qed
      qed
    qed
  qed
qed

lemma read_questions_loop_frame:
  "read_questions_loop n acc s = (r, s') \<Longrightarrow> cursor_moved s s'"
proof (induction n arbitrary: acc s)
  case 0
  then show ?case by (simp add: cursor_moved_refl)
next
  case (Suc k)
  then show ?case
    by (auto split: prod.splits sum.splits
        dest!: read_name_frame unpack_frame intro: cursor_moved_trans)
qed

lemma read_others_frame:
  assumes "read_others s = (r, s')"
  shows "valid s' = valid s" "did_read_others s'" "questions s' = questions s"
    "\<exists>rs. answers s' = answers s @ rs"
proof -
  let ?s1 = "s\<lparr>did_read_others := True\<rparr>"
  from assms obtain n where "read_others_loop n ?s1 = (r, s')"
    unfolding read_others_def by (simp add: Let_def)
  then have g: "answers_grown ?s1 s'"
    by (rule read_others_loop_frame)
  from answers_grownD(1) [OF g] show "valid s' = valid s" by simp
  from answers_grownD(2) [OF g] show "did_read_others s'" by simp
  from answers_grownD(3) [OF g] show "questions s' = questions s" by simp
  from answers_grownD(13) [OF g] show "\<exists>rs. answers s' = answers s @ rs" by simp
qed

lemma read_header_frame:
  assumes "read_header s = (r, s')"
  shows "valid s' = valid s" "did_read_others s' = did_read_others s"
    "questions s' = questions s" "answers s' = answers s"
  using assms unfolding read_header_def unpack_def
  by (auto simp: Let_def split: sum.splits prod.splits)

lemma read_questions_frame:
  assumes "read_questions s = (r, s')"
  shows "valid s' = valid s" "did_read_others s' = did_read_others s"
    "answers s' = answers s" "r \<noteq> Inr () \<Longrightarrow> questions s' = questions s"
proof -
  obtain r1 s1 where l: "read_questions_loop (unat (num_questions s)) [] s = (r1, s1)"
    by (cases "read_questions_loop (unat (num_questions s)) [] s")
  note f = cursor_movedD [OF read_questions_loop_frame [OF l]]
  from assms l f show "valid s' = valid s" "did_read_others s' = did_read_others s"
    "answers s' = answers s"
    unfolding read_questions_def by (auto split: sum.splits)
  from assms l f show "r \<noteq> Inr () \<Longrightarrow> questions s' = questions s"
    unfolding read_questions_def by (auto split: sum.splits)
qed

lemma initial_parse_valid:
  assumes "initial_parse s = (r, s')" and "\<not> valid s"
  shows "valid s' \<longleftrightarrow> r = Inr ()"
proof -
  obtain r1 s1 where h: "read_header s = (r1, s1)" by (cases "read_header s")
  obtain r2 s2 where q: "read_questions s1 = (r2, s2)" by (cases "read_questions s1")
  obtain r3 s3 where o: "read_others s2 = (r3, s3)" by (cases "read_others s2")
  from read_header_frame(1) [OF h] read_questions_frame(1) [OF q] read_others_frame(1) [OF o]
    assms h q o
  show ?thesis
    unfolding initial_parse_def by (auto split: sum.splits if_splits)
qed

lemma initial_parse_ok_iff:
  "fst (initial_parse s) = Inr () \<longleftrightarrow>
     (\<exists>s1 s2. read_header s = (Inr (), s1) \<and> read_questions s1 = (Inr (), s2)
        \<and> (num_questions s2 \<noteq> 0 \<or> fst (read_others s2) = Inr ()))"
  unfolding initial_parse_def
  by (auto split: sum.splits prod.splits if_splits)

lemma DNSIncoming_message:
  "DNSIncoming buf src scope now_arg clock room = Inr m \<Longrightarrow>
     m = snd (initial_parse (init_slots buf src scope now_arg clock room))"
  unfolding DNSIncoming_def by (auto split: prod.splits sum.splits if_splits)

lemma get_answers_valid: "valid (snd (get_answers s)) = valid s"
proof -
  obtain r s1 where o: "read_others s = (r, s1)" by (cases "read_others s")
  from read_others_frame(1) [OF o] o show ?thesis
    unfolding get_answers_def by (auto split: sum.splits)
qed

lemma read_others_loop_skip:
  assumes "read_name s = (Inr domain, s1)"
    and "UNPACK_HHiH (data s1) (offset s1) = Inr (rtype, rclass, ttl, len)"
    and "read_record domain rtype rclass ttl (unat len) (s1\<lparr>offset := offset s1 + 10\<rparr>)
           = (Inl e, s3)"
    and "e \<in> DECODE_EXCEPTIONS"
  shows "read_others_loop (Suc k) s
           = read_others_loop k (s3\<lparr>offset := offset s1 + 10 + unat len\<rparr>)"
  using assms by (simp add: Let_def)

subsection \<open>The \<open>valid\<close> flag\<close>

text \<open>
  Claim C1, as stated, fails: for the header that declares one answer and nothing after it,
  the header and the (empty) question section are read without an error, yet the record
  section is read during construction because no question is declared, its fatal error
  leaves \<^verbatim>\<open>_initial_parse\<close> before \<open>valid\<close> is set, and \<open>valid\<close> stays false.
\<close>

theorem valid_false_after_good_questions_counterexample:
  "fst (read_header (init_slots truncated_answer_packet None None None 0 1000)) = Inr ()
   \<and> fst (read_questions (snd (read_header (init_slots truncated_answer_packet None None None 0 1000))))
       = Inr ()
   \<and> map_sum id valid (DNSIncoming truncated_answer_packet None None None 0 1000) = Inr False"
  by (simp add: truncated_answer_packet_def decoder_defs)

text \<open>
  Claim C1, amended: the message a construction returns has \<open>valid\<close> true if and only if
  the header and the question section were read without a decode error and, when the header
  declares no question, the record section read during construction also ended without a
  fatal decode error. Decoding the record section on an access to \<open>answers\<close> never changes
  \<open>valid\<close>. A record whose payload raises one of \<^verbatim>\<open>DECODE_EXCEPTIONS\<close> is not such a
  fatal error: the record loop goes on with the next record from the declared end.
\<close>

theorem valid_reflects_construction_parse:
  assumes "DNSIncoming buf src scope now_arg clock room = Inr m"
  shows "(valid m \<longleftrightarrow>
           (\<exists>s1 s2. read_header (init_slots buf src scope now_arg clock room) = (Inr (), s1)
              \<and> read_questions s1 = (Inr (), s2)
              \<and> (num_questions s2 \<noteq> 0 \<or> fst (read_others s2) = Inr ())))
         \<and> valid (snd (get_answers m)) = valid m
         \<and> (\<forall>s domain s1 rtype rclass ttl len e s3 k.
               read_name s = (Inr domain, s1)
               \<and> UNPACK_HHiH (data s1) (offset s1) = Inr (rtype, rclass, ttl, len)
               \<and> read_record domain rtype rclass ttl (unat len)
                     (s1\<lparr>offset := offset s1 + 10\<rparr>) = (Inl e, s3)
               \<and> e \<in> DECODE_EXCEPTIONS
               \<longrightarrow> read_others_loop (Suc k) s
                     = read_others_loop k (s3\<lparr>offset := offset s1 + 10 + unat len\<rparr>))"
proof (intro conjI allI impI)
  let ?s0 = "init_slots buf src scope now_arg clock room"
  obtain r where ip: "initial_parse ?s0 = (r, m)"
    using DNSIncoming_message [OF assms] by (cases "initial_parse ?s0") simp
  have "\<not> valid ?s0" by (simp add: init_slots_def)
  from initial_parse_valid [OF ip this] ip have "valid m \<longleftrightarrow> fst (initial_parse ?s0) = Inr ()"
    by simp
  then show "valid m \<longleftrightarrow>
           (\<exists>s1 s2. read_header (init_slots buf src scope now_arg clock room) = (Inr (), s1)
              \<and> read_questions s1 = (Inr (), s2)
              \<and> (num_questions s2 \<noteq> 0 \<or> fst (read_others s2) = Inr ()))"
    by (simp only: initial_parse_ok_iff)
  show "valid (snd (get_answers m)) = valid m"
    by (rule get_answers_valid)
next
  fix s domain s1 rtype rclass ttl len e s3 k
  assume "read_name s = (Inr domain, s1)
               \<and> UNPACK_HHiH (data s1) (offset s1) = Inr (rtype, rclass, ttl, len)
               \<and> read_record domain rtype rclass ttl (unat len)
                     (s1\<lparr>offset := offset s1 + 10\<rparr>) = (Inl e, s3)
               \<and> e \<in> DECODE_EXCEPTIONS"
  then show "read_others_loop (Suc k) s
               = read_others_loop k (s3\<lparr>offset := offset s1 + 10 + unat len\<rparr>)"
    using read_others_loop_skip by blast
qed

theorem valid_reflects_construction_parse_witness:
  "map_sum id (\<lambda>m. (valid m, answers m))
      (DNSIncoming skipped_pointer_packet None None (Some 1) 0 1000)
     = Inr (True, [DNSAddress [0x61, 46] 1 1 120 [10, 0, 0, 1] 1 None,
                   DNSAddress [0x63, 46] 1 1 120 [10, 0, 0, 3] 1 None])
   \<and> (\<exists>s1 s2. read_header (init_slots skipped_pointer_packet None None (Some 1) 0 1000)
                  = (Inr (), s1)
          \<and> read_questions s1 = (Inr (), s2)
          \<and> (num_questions s2 \<noteq> 0 \<or> fst (read_others s2) = Inr ()))"
proof -
  obtain m where h: "DNSIncoming skipped_pointer_packet None None (Some 1) 0 1000 = Inr m"
    and v: "valid m"
    and a: "answers m = [DNSAddress [0x61, 46] 1 1 120 [10, 0, 0, 1] 1 None,
                         DNSAddress [0x63, 46] 1 1 120 [10, 0, 0, 3] 1 None]"
    by (simp add: skipped_pointer_packet_def decoder_defs)
  from valid_reflects_construction_parse [OF h, THEN conjunct1] v h a show ?thesis
    by simp
qed

subsection \<open>Deferred decoding of the record section\<close>

lemma get_answers_cached:
  "did_read_others s \<Longrightarrow> get_answers s = (Inr (answers s), s)"
  by (simp add: get_answers_def)

lemma get_answers_did_read: "did_read_others (snd (get_answers s))"
proof -
  obtain r s1 where o: "read_others s = (r, s1)" by (cases "read_others s")
  from read_others_frame(2) [OF o] o show ?thesis
    unfolding get_answers_def by (auto split: sum.splits)
qed

lemma initial_parse_did_read:
  assumes "initial_parse s = (r, s')" and "\<not> did_read_others s" and "answers s = []"
  shows "did_read_others s' \<longleftrightarrow>
          (\<exists>s1 s2. read_header s = (Inr (), s1) \<and> read_questions s1 = (Inr (), s2)
             \<and> num_questions s2 = 0)"
    and "\<not> did_read_others s' \<Longrightarrow> answers s' = []"
proof -
  obtain r1 s1 where h: "read_header s = (r1, s1)" by (cases "read_header s")
  obtain r2 s2 where q: "read_questions s1 = (r2, s2)" by (cases "read_questions s1")
  obtain r3 s3 where o: "read_others s2 = (r3, s3)" by (cases "read_others s2")
  note f = read_header_frame [OF h] read_questions_frame(1-3) [OF q] read_others_frame [OF o]
  from f assms h q o
  show "did_read_others s' \<longleftrightarrow>
          (\<exists>s1 s2. read_header s = (Inr (), s1) \<and> read_questions s1 = (Inr (), s2)
             \<and> num_questions s2 = 0)"
    unfolding initial_parse_def by (auto split: sum.splits if_splits)
  from f assms h q o
  show "\<not> did_read_others s' \<Longrightarrow> answers s' = []"
    unfolding initial_parse_def by (auto split: sum.splits if_splits)
qed

text \<open>
  Claim C5, as stated, fails: for a response that declares no question, the record section
  is decoded during construction. The message built from the one-answer response has
  \<^verbatim>\<open>_did_read_others\<close> set and its answer in place before \<open>answers\<close> is ever accessed.
\<close>

theorem records_decoded_in_construction_counterexample:
  "map_sum id (\<lambda>m. (did_read_others m, answers m))
     (DNSIncoming response_packet None None (Some 1) 0 1000)
   = Inr (True, [DNSAddress [0x61, 46] 1 1 120 [10, 0, 0, 1] 1 None])"
  by (simp add: response_packet_def decoder_defs)

text \<open>
  Claim C5, amended: the record section is decoded during construction exactly when the
  header and the questions were read without a decode error and the header declares no
  question. Otherwise the record list is empty after construction and the first access to
  \<open>answers\<close> runs \<^verbatim>\<open>_read_others\<close>. After any access \<^verbatim>\<open>_did_read_others\<close> is set,
  and a further access returns the cached list and leaves the whole state as it is.
\<close>

theorem record_section_decoded_once:
  assumes "DNSIncoming buf src scope now_arg clock room = Inr m"
  shows "(did_read_others m \<longleftrightarrow>
           (\<exists>s1 s2. read_header (init_slots buf src scope now_arg clock room) = (Inr (), s1)
              \<and> read_questions s1 = (Inr (), s2) \<and> num_questions s2 = 0))
         \<and> (\<not> did_read_others m \<longrightarrow>
               answers m = [] \<and> snd (get_answers m) = snd (read_others m))
         \<and> did_read_others (snd (get_answers m))
         \<and> get_answers (snd (get_answers m))
             = (Inr (answers (snd (get_answers m))), snd (get_answers m))"
proof -
  let ?s0 = "init_slots buf src scope now_arg clock room"
  obtain r where ip: "initial_parse ?s0 = (r, m)"
    using DNSIncoming_message [OF assms] by (cases "initial_parse ?s0") simp
  have i: "\<not> did_read_others ?s0" "answers ?s0 = []" by (simp_all add: init_slots_def)
  have "snd (get_answers m) = snd (read_others m)" if "\<not> did_read_others m"
    using that unfolding get_answers_def by (auto split: prod.splits sum.splits)
  with initial_parse_did_read [OF ip i] get_answers_did_read [of m]
    get_answers_cached [OF get_answers_did_read, of m]
  show ?thesis by blast
qed

theorem record_section_decoded_once_witness:
  "map_sum id (\<lambda>m. (did_read_others m, answers m,
                     fst (get_answers m), fst (get_answers (snd (get_answers m)))))
      (DNSIncoming query_packet None None (Some 1) 0 1000)
     = Inr (False, [], Inr [DNSAddress [0x61, 46] 1 1 120 [10, 0, 0, 1] 1 None],
            Inr [DNSAddress [0x61, 46] 1 1 120 [10, 0, 0, 1] 1 None])"
proof -
  obtain m where h: "DNSIncoming query_packet None None (Some 1) 0 1000 = Inr m"
    and d: "\<not> did_read_others m"
    and a: "fst (get_answers m) = Inr [DNSAddress [0x61, 46] 1 1 120 [10, 0, 0, 1] 1 None]"
    and b: "answers (snd (get_answers m)) = [DNSAddress [0x61, 46] 1 1 120 [10, 0, 0, 1] 1 None]"
    by (simp add: query_packet_def decoder_defs)
  from record_section_decoded_once [OF h] d
  have e: "answers m = []"
    and c: "get_answers (snd (get_answers m))
              = (Inr (answers (snd (get_answers m))), snd (get_answers m))"
    by blast+
  from c b have "fst (get_answers (snd (get_answers m)))
                   = Inr [DNSAddress [0x61, 46] 1 1 120 [10, 0, 0, 1] 1 None]"
    by simp
  with h d a e show ?thesis
    by simp
qed

subsection \<open>What a decode error leaves behind\<close>

lemma read_others_loop_add:
  "read_others_loop k t = (Inr (), sk) \<Longrightarrow>
     read_others_loop (k + j) t = read_others_loop j sk"
  by (induction k arbitrary: t)
    (auto simp: Let_def split: prod.splits sum.splits option.splits if_splits)

lemma read_questions_loop_length:
  "read_questions_loop n acc s = (Inr qs, s') \<Longrightarrow> length qs = length acc + n"
  by (induction n arbitrary: acc s)
    (auto split: prod.splits sum.splits)

lemma not_decode_exception:
  "e \<notin> DECODE_EXCEPTIONS \<longleftrightarrow> e = UnicodeDecodeError \<or> e = RecursionError"
  by (cases e) (simp_all add: DECODE_EXCEPTIONS_def)

lemma initial_parse_questions:
  assumes "initial_parse s = (r, s')" and "read_header s = (Inr (), s1)"
    and "read_questions s1 = (Inl e, s2)"
  shows "questions s' = questions s"
  using assms read_header_frame(3) [OF assms(2)] read_questions_frame(4) [OF assms(3)]
  unfolding initial_parse_def by auto

lemma get_answers_grows: "\<exists>rs. answers (snd (get_answers s)) = answers s @ rs"
proof -
  obtain r s1 where o: "read_others s = (r, s1)" by (cases "read_others s")
  from read_others_frame(4) [OF o] o show ?thesis
    unfolding get_answers_def by (auto split: sum.splits)
qed

text \<open>
  Claim C4, as stated, fails for questions: \<^verbatim>\<open>self.questions\<close> is assigned only when the
  whole comprehension has run. In the query below the first of the two declared questions
  is decoded, the second fails, and the returned message has no question at all.
\<close>

theorem failed_questions_drop_decoded_prefix_counterexample:
  "fst (read_questions_loop 1 []
          (snd (read_header (init_slots two_questions_cut_packet None None None 0 1000))))
     = Inr [DNSQuestion [0x61, 46] 1 1]
   \<and> map_sum id (\<lambda>m. (valid m, questions m))
        (DNSIncoming two_questions_cut_packet None None None 0 1000) = Inr (False, [])"
  by (simp add: two_questions_cut_packet_def decoder_defs)

text \<open>
  Claim C4, amended: an exception of \<^verbatim>\<open>DECODE_EXCEPTIONS\<close> never leaves the constructor
  or the \<open>answers\<close> property, so the message is still returned; an access to \<open>answers\<close>
  only appends to the record list, and the records appended in the first \<open>k\<close> rounds of the
  record loop stay in the list whatever the later rounds do; when the question section
  fails, the question list of the returned message is empty.
\<close>

theorem decode_errors_keep_message_and_records:
  "(\<forall>e. DNSIncoming buf src scope now_arg clock room = Inl e \<longrightarrow> e \<notin> DECODE_EXCEPTIONS)
   \<and> (\<forall>e s'. get_answers s = (Inl e, s') \<longrightarrow> e \<notin> DECODE_EXCEPTIONS)
   \<and> (\<exists>rs. answers (snd (get_answers s)) = answers s @ rs)
   \<and> (\<forall>sk. read_others_loop k s = (Inr (), sk) \<longrightarrow>
          read_others_loop (k + j) s = read_others_loop j sk
          \<and> (\<exists>rs. answers (snd (read_others_loop (k + j) s)) = answers sk @ rs))
   \<and> (\<forall>m s1 e s2. DNSIncoming buf src scope now_arg clock room = Inr m
          \<and> read_header (init_slots buf src scope now_arg clock room) = (Inr (), s1)
          \<and> read_questions s1 = (Inl e, s2) \<longrightarrow> questions m = [])"
proof (intro conjI allI impI)
  fix e assume "DNSIncoming buf src scope now_arg clock room = Inl e"
  then show "e \<notin> DECODE_EXCEPTIONS"
    unfolding DNSIncoming_def by (auto split: prod.splits sum.splits if_splits)
next
  fix e s' assume "get_answers s = (Inl e, s')"
  then show "e \<notin> DECODE_EXCEPTIONS"
    unfolding get_answers_def by (auto split: prod.splits sum.splits if_splits)
next
  show "\<exists>rs. answers (snd (get_answers s)) = answers s @ rs"
    by (rule get_answers_grows)
next
  fix sk assume k: "read_others_loop k s = (Inr (), sk)"
  then show "read_others_loop (k + j) s = read_others_loop j sk"
    by (rule read_others_loop_add)
  obtain r s' where j: "read_others_loop j sk = (r, s')" by (cases "read_others_loop j sk")
  from answers_grownD(13) [OF read_others_loop_frame [OF j]] j read_others_loop_add [OF k, of j]
  show "\<exists>rs. answers (snd (read_others_loop (k + j) s)) = answers sk @ rs"
    by simp
next
  fix m s1 e s2
  assume a: "DNSIncoming buf src scope now_arg clock room = Inr m
          \<and> read_header (init_slots buf src scope now_arg clock room) = (Inr (), s1)
          \<and> read_questions s1 = (Inl e, s2)"
  let ?s0 = "init_slots buf src scope now_arg clock room"
  obtain r where ip: "initial_parse ?s0 = (r, m)"
    using DNSIncoming_message [of buf src scope now_arg clock room m] a
    by (cases "initial_parse ?s0") simp
  from initial_parse_questions [OF ip] a show "questions m = []"
    by (simp add: init_slots_def)
qed

theorem decode_errors_keep_message_and_records_witness:
  "map_sum id questions (DNSIncoming two_questions_cut_packet None None None 0 1000) = Inr []
   \<and> map_sum id (\<lambda>m. (valid m, fst (get_answers m)))
        (DNSIncoming third_answer_cut_packet None None (Some 1) 0 1000)
       = Inr (True, Inr [DNSAddress [0x61, 46] 1 1 120 [10, 0, 0, 1] 1 None,
                         DNSAddress [0x61, 46] 1 1 120 [10, 0, 0, 2] 1 None])"
proof -
  let ?s0 = "init_slots two_questions_cut_packet None None None 0 1000"
  obtain m s1 e s2 where h: "DNSIncoming two_questions_cut_packet None None None 0 1000 = Inr m"
    and r: "read_header ?s0 = (Inr (), s1)" and q: "read_questions s1 = (Inl e, s2)"
    by (simp add: two_questions_cut_packet_def decoder_defs)
  from decode_errors_keep_message_and_records [of two_questions_cut_packet None None None 0]
    h r q
  have "questions m = []"
    by blast
  with h show ?thesis
    by (simp add: third_answer_cut_packet_def decoder_defs)
qed

subsection \<open>Skipping a record whose payload fails to decode\<close>

text \<open>
  When the payload of the second of three records raises one of \<^verbatim>\<open>DECODE_EXCEPTIONS\<close>,
  the loop sets the cursor to the end the record declares, reads the third record from
  there and returns the first and the third record.
\<close>

lemma read_others_loop_Some:
  assumes "read_name s = (Inr domain, s1)"
    and "UNPACK_HHiH (data s1) (offset s1) = Inr (rtype, rclass, ttl, len)"
    and "read_record domain rtype rclass ttl (unat len) (s1\<lparr>offset := offset s1 + 10\<rparr>)
           = (Inr (Some rec), s3)"
  shows "read_others_loop (Suc k) s
           = read_others_loop k (s3\<lparr>answers := answers s @ [rec]\<rparr>)"
proof -
  have "answers s3 = answers s"
    using cursor_movedD(3) [OF read_name_frame [OF assms(1)]]
      cursor_movedD(3) [OF read_record_frame [OF assms(3)]] by simp
  with assms show ?thesis by (simp add: Let_def)
qed

lemma corrupt_second_of_three_records_is_skipped:
  assumes "read_name s = (Inr d1, a1)"
    and "UNPACK_HHiH (data a1) (offset a1) = Inr (t1, c1, ttl1, l1)"
    and "read_record d1 t1 c1 ttl1 (unat l1) (a1\<lparr>offset := offset a1 + 10\<rparr>)
           = (Inr (Some r1), b1)"
    and "read_name (b1\<lparr>answers := answers s @ [r1]\<rparr>) = (Inr d2, a2)"
    and "UNPACK_HHiH (data a2) (offset a2) = Inr (t2, c2, ttl2, l2)"
    and "read_record d2 t2 c2 ttl2 (unat l2) (a2\<lparr>offset := offset a2 + 10\<rparr>)
           = (Inl e, b2)"
    and "e \<in> DECODE_EXCEPTIONS"
    and "read_name (b2\<lparr>offset := offset a2 + 10 + unat l2\<rparr>) = (Inr d3, a3)"
    and "UNPACK_HHiH (data a3) (offset a3) = Inr (t3, c3, ttl3, l3)"
    and "read_record d3 t3 c3 ttl3 (unat l3) (a3\<lparr>offset := offset a3 + 10\<rparr>)
           = (Inr (Some r3), b3)"
  shows "read_others_loop 3 s = (Inr (), b3\<lparr>answers := answers s @ [r1, r3]\<rparr>)"
proof -
  have "answers (b2\<lparr>offset := offset a2 + 10 + unat l2\<rparr>) = answers s @ [r1]"
    using cursor_movedD(3) [OF read_name_frame [OF assms(4)]]
      cursor_movedD(3) [OF read_record_frame [OF assms(6)]] by simp
  then have "read_others_loop (Suc 0) (b2\<lparr>offset := offset a2 + 10 + unat l2\<rparr>)
               = (Inr (), b3\<lparr>answers := answers s @ [r1, r3]\<rparr>)"
    using read_others_loop_Some [OF assms(8-10), of 0] by simp
  then have "read_others_loop (Suc (Suc 0)) (b1\<lparr>answers := answers s @ [r1]\<rparr>)
               = (Inr (), b3\<lparr>answers := answers s @ [r1, r3]\<rparr>)"
    using read_others_loop_skip [OF assms(4-7), of "Suc 0"] by simp
  then have "read_others_loop (Suc (Suc (Suc 0))) s
               = (Inr (), b3\<lparr>answers := answers s @ [r1, r3]\<rparr>)"
    using read_others_loop_Some [OF assms(1-3), of "Suc (Suc 0)"] by simp
  then show ?thesis
    by (simp add: numeral_3_eq_3)
qed

text \<open>
  Claim C2 is not met by the code when the corrupt payload is an HINFO string that is not
  UTF-8: the strict decode raises \<^verbatim>\<open>UnicodeDecodeError\<close>, which is not among
  \<^verbatim>\<open>DECODE_EXCEPTIONS\<close>, so the \<^verbatim>\<open>try\<close> of \<^verbatim>\<open>_read_others\<close> does not catch it. For the
  query above, construction succeeds with \<open>valid\<close> true, the access to \<open>answers\<close> raises,
  only the first record is in the list and the third is never decoded; a second access
  returns that one record. For the response the constructor itself raises.
\<close>

theorem hinfo_invalid_utf8_escapes_record_recovery:
  "map_sum id (\<lambda>m. (valid m, fst (get_answers m), answers (snd (get_answers m)),
                      fst (get_answers (snd (get_answers m)))))
      (DNSIncoming hinfo_query_packet None None (Some 1) 0 1000)
     = Inr (True, Inl UnicodeDecodeError,
            [DNSAddress [0x61, 46] 1 1 120 [10, 0, 0, 1] 1 None],
            Inr [DNSAddress [0x61, 46] 1 1 120 [10, 0, 0, 1] 1 None])
   \<and> DNSIncoming hinfo_response_packet None None (Some 1) 0 1000 = Inl UnicodeDecodeError"
  by (simp add: hinfo_query_packet_def hinfo_response_packet_def decoder_defs)

subsection \<open>Termination of the two loops\<close>

text \<open>
  For a recursive function \<open>f\<close> the relation \<open>f_rel y x\<close> holds when the call with the
  arguments \<open>x\<close> makes the recursive call with the arguments \<open>y\<close>, and \<open>f_dom x\<close> says
  that every chain of such calls from \<open>x\<close> is finite. Both are derived from the defining
  equation of \<open>f\<close>. All other functions of the decoder recurse on a list or on a count
  taken from the header.
\<close>

lemma decode_call_measure:
  assumes "decode_labels_at_offset_rel y (buf, n, cache, off, labels, seen, room)"
  shows "\<exists>off' labels' seen' room'. y = (buf, n, cache, off', labels', seen', room')
           \<and> (seen' = seen \<and> off < off' \<and> off < n
               \<or> off' \<notin> seen \<and> off' \<le> n \<and> seen' = insert off' seen)"
  using assms
  by (cases rule: decode_labels_at_offset_rel.cases)
    (auto simp: DNS_COMPRESSION_HEADER_LEN_def)

lemma bitmap_call_measure:
  assumes "read_bitmap_loop_rel y (end_off, rdtypes, s)"
  shows "\<exists>rdtypes' s'. y = (end_off, rdtypes', s')
           \<and> offset s < end_off \<and> offset s + 2 \<le> offset s'"
  using assms
  by (cases rule: read_bitmap_loop_rel.cases) auto

lemma decode_labels_at_offset_rel_wf: "wfp decode_labels_at_offset_rel"
proof -
  let ?m = "measures [\<lambda>(buf, n, cache, off, labels, seen, room). card ({..n} - seen),
                      \<lambda>(buf, n, cache, off, labels, seen, room). n - off]
              :: ((byte list \<times> nat \<times> name_cache \<times> nat \<times> ustr list \<times> nat set \<times> nat) \<times> _) set"
  have "{(y, x). decode_labels_at_offset_rel y x} \<subseteq> ?m"
  proof (clarify)
    fix b' n' c' o' l' s' r' buf n cache off labels seen room
    assume "decode_labels_at_offset_rel (b', n', c', o', l', s', r')
              (buf, n, cache, off, labels, seen, room)"
    from decode_call_measure [OF this]
    consider (run) "n' = n" "s' = seen" "off < o'" "off < n"
      | (follow) "n' = n" "o' \<notin> seen" "o' \<le> n" "s' = insert o' seen"
      by auto
    then show "((b', n', c', o', l', s', r'), (buf, n, cache, off, labels, seen, room)) \<in> ?m"
    proof cases
      case run
      then show ?thesis by simp
    next
      case follow
      then have "o' \<in> {..n} - seen" by simp
      then have "card ({..n} - insert o' seen) < card ({..n} - seen)"
        by (metis Diff_insert card_Diff1_less finite_Diff finite_atMost)
      with follow show ?thesis by simp
    qed
  qed
  then show ?thesis
    unfolding wfp_def by (rule wf_subset [OF wf_measures])
qed

lemma decode_labels_at_offset_total: "decode_labels_at_offset_dom x"
  by (rule accp_wfpD [OF decode_labels_at_offset_rel_wf])

lemma read_bitmap_loop_rel_wf: "wfp read_bitmap_loop_rel"
proof -
  let ?m = "measure (\<lambda>(end_off, rdtypes, s). end_off - offset s)
              :: ((nat \<times> nat list \<times> incoming) \<times> _) set"
  have "{(y, x). read_bitmap_loop_rel y x} \<subseteq> ?m"
  proof (clarify)
    fix e' r' s' end_off rdtypes s
    assume "read_bitmap_loop_rel (e', r', s') (end_off, rdtypes, s)"
    from bitmap_call_measure [OF this]
    show "((e', r', s'), (end_off, rdtypes, s)) \<in> ?m"
      by auto
  qed
  then show ?thesis
    unfolding wfp_def by (rule wf_subset [OF wf_measure])
qed

lemma read_bitmap_loop_total: "read_bitmap_loop_dom x"
  by (rule accp_wfpD [OF read_bitmap_loop_rel_wf])

text \<open>
  Claim C9: name decompression and the bitmap loop terminate on every input. A call of
  \<^verbatim>\<open>_decode_labels_at_offset\<close> either continues its label run at a strictly larger
  offset with the same set of seen pointers, or follows a pointer to an offset that is at
  most the buffer length and was not in the set, and adds it; a round of the bitmap loop
  runs only while the cursor is before the end and moves the cursor on by at least two.
\<close>

theorem decoding_loops_terminate:
  "decode_labels_at_offset_dom (buf, n, cache, off, labels, seen, room)
   \<and> (\<forall>y. decode_labels_at_offset_rel y (buf, n, cache, off, labels, seen, room) \<longrightarrow>
          (\<exists>off' labels' seen' room'. y = (buf, n, cache, off', labels', seen', room')
             \<and> (seen' = seen \<and> off < off' \<and> off < n
                 \<or> off' \<notin> seen \<and> off' \<le> n \<and> seen' = insert off' seen)))
   \<and> read_bitmap_loop_dom (end_off, rdtypes, s)
   \<and> (\<forall>y. read_bitmap_loop_rel y (end_off, rdtypes, s) \<longrightarrow>
          (\<exists>rdtypes' s'. y = (end_off, rdtypes', s')
             \<and> offset s < end_off \<and> offset s + 2 \<le> offset s'))"
  using decode_labels_at_offset_total read_bitmap_loop_total
    decode_call_measure bitmap_call_measure
  by blast

theorem decoding_loops_terminate_witness:
  "decode_labels_at_offset_rel ([1, 0x61, 0], 3, Map.empty, 2, [[0x61]], {}, 1000)
      ([1, 0x61, 0], 3, Map.empty, 0, [], {}, 1000)
   \<and> read_bitmap_loop_rel (3, [1], (init_slots [0, 1, 0x40] None None None 0 1000)\<lparr>offset := 3\<rparr>)
      (3, [], init_slots [0, 1, 0x40] None None None 0 1000)
   \<and> decode_labels_at_offset_dom ([1, 0x61, 0], 3, Map.empty, 0, [], {}, 1000)
   \<and> read_bitmap_loop_dom (3, [], init_slots [0, 1, 0x40] None None None 0 1000)"
proof -
  have "decode_labels_at_offset_rel
      ([1, 0x61, 0], 3, Map.empty, 0 + DNS_COMPRESSION_HEADER_LEN + 1,
       [] @ [decode_replace (take 1 (drop (0 + DNS_COMPRESSION_HEADER_LEN) [1, 0x61, 0]))], {},
       1000)
      ([1, 0x61, 0], 3, Map.empty, 0, [], {}, 1000)"
    by (rule decode_labels_at_offset_rel.intros(1)) simp_all
  moreover have "0 + DNS_COMPRESSION_HEADER_LEN + 1 = (2::nat)"
    by (simp add: DNS_COMPRESSION_HEADER_LEN_def)
  moreover have
    "[] @ [decode_replace (take 1 (drop (0 + DNS_COMPRESSION_HEADER_LEN) [1, 0x61, 0]))]
       = [[0x61]]"
    by (simp add: DNS_COMPRESSION_HEADER_LEN_def utf8_step_def)
  ultimately have a:
    "decode_labels_at_offset_rel ([1, 0x61, 0], 3, Map.empty, 2, [[0x61]], {}, 1000)
      ([1, 0x61, 0], 3, Map.empty, 0, [], {}, 1000)"
    by (simp only:)
  let ?s = "init_slots [0, 1, 0x40] None None None 0 1000"
  have "read_bitmap_loop_rel
      (3, bitmap_window (unat (data ?s ! offset ?s))
            (take (unat (data ?s ! (offset ?s + 1))) (drop (offset ?s + 2) (data ?s))) [],
       ?s\<lparr>offset := offset ?s + 2 + unat (data ?s ! (offset ?s + 1))\<rparr>)
      (3, [], ?s)"
    by (rule read_bitmap_loop_rel.intros) (simp_all add: init_slots_def)
  moreover have "?s\<lparr>offset := offset ?s + 2 + unat (data ?s ! (offset ?s + 1))\<rparr>
                   = ?s\<lparr>offset := 3\<rparr>"
    by (simp add: init_slots_def)
  moreover have "bitmap_window (unat (data ?s ! offset ?s))
            (take (unat (data ?s ! (offset ?s + 1))) (drop (offset ?s + 2) (data ?s))) []
          = [1]"
    by (simp add: init_slots_def bitmap_window_def bitmap_byte_def upt_rec)
  ultimately have b: "read_bitmap_loop_rel (3, [1], ?s\<lparr>offset := 3\<rparr>) (3, [], ?s)"
    by (simp only:)
  from a b decoding_loops_terminate
    [of "[1, 0x61, 0]" 3 Map.empty 0 "[]" "{}" 1000 3 "[]"
        "init_slots [0, 1, 0x40] None None None 0 1000"]
  show ?thesis by blast
qed

subsection \<open>Pointer hops to a cached name\<close>

text \<open>
  The name cache of a message is sound from its construction on: it starts empty, and
  every step of the decoder keeps it sound.
\<close>

lemma cache_sound_empty: "cache_sound buf n Map.empty"
  by (simp add: cache_sound_def)

lemma read_header_sound:
  assumes "read_header s = (r, s')" and "sound_state s"
  shows "sound_state s'"
  using assms unfolding read_header_def unpack_def sound_state_def
  by (auto simp: Let_def split: sum.splits prod.splits)

lemma read_questions_sound:
  assumes "read_questions s = (r, s')" and "sound_state s"
  shows "sound_state s'"
proof -
  obtain r1 s1 where l: "read_questions_loop (unat (num_questions s)) [] s = (r1, s1)"
    by (cases "read_questions_loop (unat (num_questions s)) [] s")
  from cursor_movedD(14) [OF read_questions_loop_frame [OF l]] assms(2)
  have "sound_state s1" by (simp add: sound_state_def)
  with assms(1) l show ?thesis
    unfolding read_questions_def sound_state_def by (auto split: sum.splits)
qed

lemma read_others_sound:
  assumes "read_others s = (r, s')" and "sound_state s"
  shows "sound_state s'"
proof -
  let ?s1 = "s\<lparr>did_read_others := True\<rparr>"
  from assms(1) obtain n where "read_others_loop n ?s1 = (r, s')"
    unfolding read_others_def by (simp add: Let_def)
  from answers_grownD(14) [OF read_others_loop_frame [OF this]] assms(2)
  show ?thesis by (simp add: sound_state_def)
qed

lemma initial_parse_sound:
  assumes "initial_parse s = (r, s')" and "sound_state s"
  shows "sound_state s'"
proof -
  obtain r1 s1 where h: "read_header s = (r1, s1)" by (cases "read_header s")
  obtain r2 s2 where q: "read_questions s1 = (r2, s2)" by (cases "read_questions s1")
  obtain r3 s3 where o: "read_others s2 = (r3, s3)" by (cases "read_others s2")
  note a = read_header_sound [OF h assms(2)]
  note b = read_questions_sound [OF q a]
  note c = read_others_sound [OF o b]
  from assms(1) h q o a b c show ?thesis
    unfolding initial_parse_def
    by (auto simp: sound_state_def split: sum.splits if_splits)
qed

lemma get_answers_sound:
  assumes "sound_state s"
  shows "sound_state (snd (get_answers s))"
proof -
  obtain r s1 where o: "read_others s = (r, s1)" by (cases "read_others s")
  from read_others_sound [OF o assms] o assms show ?thesis
    unfolding get_answers_def by (auto split: sum.splits)
qed

lemma decoder_cache_sound:
  assumes "DNSIncoming buf src scope now_arg clock room = Inr m"
  shows "cache_sound (data m) (data_len m) (name_cache m)"
    and "cache_sound (data m) (data_len m) (name_cache (snd (get_answers m)))"
proof -
  let ?s0 = "init_slots buf src scope now_arg clock room"
  obtain r where ip: "initial_parse ?s0 = (r, m)"
    using DNSIncoming_message [OF assms] by (cases "initial_parse ?s0") simp
  have "sound_state ?s0"
    by (simp add: sound_state_def init_slots_def cache_sound_empty)
  from initial_parse_sound [OF ip this] have m: "sound_state m" .
  then show "cache_sound (data m) (data_len m) (name_cache m)"
    by (simp add: sound_state_def)
  obtain r1 s1 where o: "read_others m = (r1, s1)" by (cases "read_others m")
  let ?s1 = "m\<lparr>did_read_others := True\<rparr>"
  from o obtain n where "read_others_loop n ?s1 = (r1, s1)"
    unfolding read_others_def by (simp add: Let_def)
  from answers_grownD(4,5) [OF read_others_loop_frame [OF this]]
  have "data s1 = data m" "data_len s1 = data_len m" by simp_all
  with o have "data (snd (get_answers m)) = data m" "data_len (snd (get_answers m)) = data_len m"
    unfolding get_answers_def by (auto split: sum.splits)
  with get_answers_sound [OF m]
  show "cache_sound (data m) (data_len m) (name_cache (snd (get_answers m)))"
    by (simp add: sound_state_def)
qed

subsection \<open>Compression pointers that must be rejected\<close>

text \<open>
  A call that finds a pointer whose target exceeds the buffer length, is the pointer's own
  offset or was seen before, or whose followed labels push the count over 128, returns
  \<^verbatim>\<open>IncomingDecodeError\<close>, and so does every call from which this call was reached.
\<close>

lemma bad_pointer_frame_fails:
  assumes "off < n" and "off + 1 < length buf" and "0xC0 \<le> unat (buf ! off)"
    and "link = unat (buf ! off AND 0x3F) * 256 + unat (buf ! (off + 1))"
    and "link > n \<or> link = off \<or> link \<in> seen
         \<or> (\<exists>ls. cache link = Some ls \<and> ls \<noteq> []
                \<and> length (labels @ ls) > MAX_DNS_LABELS)
         \<or> ((cache link = None \<or> cache link = Some []) \<and> 0 < room
             \<and> (\<exists>off1 ls cache1.
                   decode_labels_at_offset buf n cache link [] (insert link seen) (room - 1)
                     = (Inr (off1, ls), cache1)
                   \<and> length (labels @ ls) > MAX_DNS_LABELS))"
  shows "fst (decode_labels_at_offset buf n cache off labels seen room)
           = Inl IncomingDecodeError"
  using assms
  by (subst decode_labels_at_offset.simps)
    (auto simp: Let_def split: option.splits)

lemma nested_failure_propagates:
  assumes "decode_labels_at_offset_rel (buf', n', cache', off', labels', seen', room')
             (buf, n, cache, off, labels, seen, room)"
    and "fst (decode_labels_at_offset buf' n' cache' off' labels' seen' room') = Inl e"
  shows "fst (decode_labels_at_offset buf n cache off labels seen room) = Inl e"
  using assms(1)
proof (cases rule: decode_labels_at_offset_rel.cases)
  case 1
  with assms(2) show ?thesis
    by (subst decode_labels_at_offset.simps) (simp add: Let_def)
next
  case 2
  with assms(2) show ?thesis
    by (subst decode_labels_at_offset.simps)
      (auto simp: Let_def split: prod.splits sum.splits option.splits)
qed

lemma reached_failure_propagates:
  assumes "decode_labels_at_offset_rel\<^sup>*\<^sup>* y x"
    and "fst (case y of (buf, n, cache, off, labels, seen, room) \<Rightarrow>
                decode_labels_at_offset buf n cache off labels seen room) = Inl e"
  shows "fst (case x of (buf, n, cache, off, labels, seen, room) \<Rightarrow>
                decode_labels_at_offset buf n cache off labels seen room) = Inl e"
  using assms
proof (induction rule: rtranclp_induct)
  case base
  then show ?case by simp
next
  case (step y z)
  obtain b1 n1 c1 o1 l1 s1 r1 where y: "y = (b1, n1, c1, o1, l1, s1, r1)" by (cases y) auto
  obtain b2 n2 c2 o2 l2 s2 r2 where z: "z = (b2, n2, c2, o2, l2, s2, r2)" by (cases z) auto
  from step show ?case
    using nested_failure_propagates [of b1 n1 c1 o1 l1 s1 r1 b2 n2 c2 o2 l2 s2 r2 e]
    unfolding y z by simp
qed

lemma reached_bad_pointer_fails:
  assumes "decode_labels_at_offset_rel\<^sup>*\<^sup>* (buf, n, cache, off, labels, seen, room)
             (buf, n, cache, off0, labels0, seen0, room0)"
    and "off < n" and "off + 1 < length buf" and "0xC0 \<le> unat (buf ! off)"
    and "link = unat (buf ! off AND 0x3F) * 256 + unat (buf ! (off + 1))"
    and "link > n \<or> link = off \<or> link \<in> seen
         \<or> (\<exists>ls. cache link = Some ls \<and> ls \<noteq> []
                \<and> length (labels @ ls) > MAX_DNS_LABELS)
         \<or> ((cache link = None \<or> cache link = Some []) \<and> 0 < room
             \<and> (\<exists>off1 ls cache1.
                   decode_labels_at_offset buf n cache link [] (insert link seen) (room - 1)
                     = (Inr (off1, ls), cache1)
                   \<and> length (labels @ ls) > MAX_DNS_LABELS))"
  shows "fst (decode_labels_at_offset buf n cache off0 labels0 seen0 room0)
           = Inl IncomingDecodeError"
  using reached_failure_propagates [OF assms(1), of IncomingDecodeError]
    bad_pointer_frame_fails [OF assms(2-6)]
  by simp

text \<open>
  The call at a bad pointer is reached only while the interpreter has room: a pointer
  followed with no room left raises \<^verbatim>\<open>RecursionError\<close> before its target is looked at.
  On a chain of \<open>k\<close> pointers that ends in a pointer to itself, decompression raises
  \<^verbatim>\<open>RecursionError\<close> when there is room for fewer than \<open>k\<close> nested calls, and reaches the
  self-pointer and raises \<^verbatim>\<open>IncomingDecodeError\<close> otherwise.
\<close>

lemma pointer_chain_length: "length (pointer_chain off k) = 2 * k + 2"
  by (induction k arbitrary: off) (simp_all add: pointer_to_def)

lemma pointer_to_marker: "0xC0 \<le> unat (hd (pointer_to t))"
proof -
  have "(0xC0 :: byte) \<le> 0xC0 OR word_of_nat (t div 256)"
    by (rule le_word_or2)
  then show ?thesis
    by (simp add: pointer_to_def word_le_nat_alt)
qed

lemma pointer_to_link:
  assumes "t < 16384"
  shows "unat (hd (pointer_to t) AND 0x3F) * 256 + unat (pointer_to t ! 1) = t"
proof -
  from assms have d: "t div 256 < 64" by simp
  have m: "(0x3F :: byte) = mask 6" by (simp add: mask_eq_exp_minus_1)
  have z: "(0xC0 :: byte) AND 0x3F = 0" by simp
  have "(0xC0 OR word_of_nat (t div 256)) AND (0x3F :: byte)
          = (word_of_nat (t div 256) AND 0x3F)"
    by (simp only: word_ao_dist z) simp
  also have "\<dots> = (word_of_nat (t div 256) AND mask 6)"
    by (simp only: m)
  also have "\<dots> = word_of_nat (t div 256)"
    using d by (simp add: less_mask_eq word_less_nat_alt unat_of_nat)
  finally have "unat (hd (pointer_to t) AND 0x3F) = t div 256"
    using d by (simp add: pointer_to_def unat_of_nat)
  moreover have "unat (pointer_to t ! 1) = t mod 256"
    by (simp add: pointer_to_def unat_of_nat)
  ultimately show ?thesis by simp
qed

lemma pointer_chain_decode:
  assumes "length pre = off" and "\<forall>t\<in>seen. t \<le> off" and "off + 2 * k + 2 \<le> 16384"
    and "n = off + 2 * k + 2"
  shows "decode_labels_at_offset (pre @ pointer_chain off k) n Map.empty off labels seen room
           = (Inl (if room < k then RecursionError else IncomingDecodeError), Map.empty)"
  using assms
proof (induction k arbitrary: pre off labels seen room)
  case 0
  let ?buf = "pre @ pointer_chain off 0"
  from 0 have a: "?buf ! off = hd (pointer_to off)" "?buf ! (off + 1) = pointer_to off ! 1"
    by (simp_all add: nth_append pointer_to_def)
  from 0 have "off < 16384" by simp
  from pointer_to_link [OF this] pointer_to_marker [of off] a 0
  show ?case
    by (subst decode_labels_at_offset.simps) (simp add: Let_def pointer_to_def)
next
  case (Suc k)
  let ?buf = "pre @ pointer_chain off (Suc k)"
  let ?pre = "pre @ pointer_to (off + 2)"
  have b: "?buf = ?pre @ pointer_chain (off + 2) k" by simp
  from Suc.prems have a: "?buf ! off = hd (pointer_to (off + 2))"
    "?buf ! (off + 1) = pointer_to (off + 2) ! 1"
    by (simp_all add: nth_append pointer_to_def)
  from Suc.prems have "off + 2 < 16384" by simp
  note l = pointer_to_link [OF this]
  from Suc.prems have fresh: "off + 2 \<notin> seen" by auto
  have len: "off + 1 < length ?buf"
    using Suc.prems by (simp add: pointer_chain_length pointer_to_def)
  have p: "length ?pre = off + 2" using Suc.prems by (simp add: pointer_to_def)
  have s: "\<forall>t\<in>insert (off + 2) seen. t \<le> off + 2" using Suc.prems by auto
  have inner: "decode_labels_at_offset ?buf n Map.empty (off + 2) [] (insert (off + 2) seen) r
           = (Inl (if r < k then RecursionError else IncomingDecodeError), Map.empty)" for r
    unfolding b using Suc.prems by (intro Suc.IH [OF p s]) simp_all
  show ?case
  proof (cases "room = 0")
    case True
    from decode_no_room [where buf = ?buf and off = off and n = n and link = "off + 2"
        and seen = seen and cache = Map.empty and labels = labels]
      a l pointer_to_marker [of "off + 2"] len fresh Suc.prems True
    show ?thesis by simp
  next
    case False
    then have pos: "0 < room" by simp
    from decode_miss [where buf = ?buf and off = off and n = n and link = "off + 2"
        and seen = seen and cache = Map.empty and labels = labels and room = room]
      a l pointer_to_marker [of "off + 2"] len fresh Suc.prems pos
    have "decode_labels_at_offset ?buf n Map.empty off labels seen room
           = (case decode_labels_at_offset ?buf n Map.empty (off + 2) []
                     (insert (off + 2) seen) (room - 1) of
                (Inl e, c1) \<Rightarrow> (Inl e, c1)
              | (Inr (off1, l1), c1) \<Rightarrow>
                  (if length (labels @ l1) > MAX_DNS_LABELS then Inl IncomingDecodeError
                   else Inr (off + 2, labels @ l1), c1(off + 2 \<mapsto> l1)))"
      by simp
    also have "\<dots> = (Inl (if room - 1 < k then RecursionError else IncomingDecodeError),
                        Map.empty)"
      by (simp only: inner) simp
    finally show ?thesis using pos by auto
  qed
qed

lemma pointer_chain_packet_header:
  "\<exists>s1. read_header (init_slots (pointer_chain_packet k) src scope now_arg clock room)
            = (Inr (), s1)
        \<and> data s1 = pointer_chain_packet k \<and> data_len s1 = 14 + 2 * k
        \<and> name_cache s1 = Map.empty \<and> offset s1 = 12 \<and> stack_room s1 = room
        \<and> num_questions s1 = 1 \<and> \<not> valid s1"
  by (simp add: read_header_def unpack_def UNPACK_6H_def unpack_from_def u16_def
        init_slots_def Let_def pointer_chain_packet_def pointer_chain_length)

lemma pointer_chain_packet_parse:
  assumes "14 + 2 * k \<le> 16384"
  shows "\<exists>s. initial_parse (init_slots (pointer_chain_packet k) src scope now_arg clock room)
           = (Inl (if room < k then RecursionError else IncomingDecodeError), s) \<and> \<not> valid s"
proof -
  let ?buf = "pointer_chain_packet k"
  let ?e = "if room < k then RecursionError else IncomingDecodeError"
  from pointer_chain_packet_header [of k src scope now_arg clock room]
  obtain s1 where h: "read_header (init_slots ?buf src scope now_arg clock room) = (Inr (), s1)"
    and s1: "data s1 = ?buf" "data_len s1 = 14 + 2 * k" "name_cache s1 = Map.empty"
      "offset s1 = 12" "stack_room s1 = room" "num_questions s1 = 1" "\<not> valid s1"
    by (elim exE conjE) (rule that, assumption+)
  have "decode_labels_at_offset ([0, 0, 0, 0, 0, 1, 0, 0, 0, 0, 0, 0] @ pointer_chain 12 k)
          (14 + 2 * k) Map.empty 12 [] {} room = (Inl ?e, Map.empty)"
  proof (rule pointer_chain_decode)
    show "length ([0, 0, 0, 0, 0, 1, 0, 0, 0, 0, 0, 0] :: byte list) = 12" by simp
    show "\<forall>t\<in>{}. t \<le> (12 :: nat)" by simp
    from assms show "12 + 2 * k + 2 \<le> 16384" by simp
    show "14 + 2 * k = 12 + 2 * k + 2" by simp
  qed
  then have "decode_labels_at_offset ?buf (14 + 2 * k) Map.empty 12 [] {} room
               = (Inl ?e, Map.empty)"
    by (simp only: pointer_chain_packet_def)
  with s1 have "read_name s1 = (Inl ?e, s1\<lparr>name_cache := Map.empty\<rparr>)"
    by (simp add: read_name_def)
  with s1 have "read_questions s1 = (Inl ?e, s1\<lparr>name_cache := Map.empty\<rparr>)"
    by (simp add: read_questions_def)
  with h s1 show ?thesis
    by (simp add: initial_parse_def)
qed

lemma short_pointer_chain_is_decode_error:
  assumes "k \<le> room" and "14 + 2 * k \<le> 16384"
  shows "\<exists>m. DNSIncoming (pointer_chain_packet k) src scope now_arg clock room = Inr m
           \<and> \<not> valid m"
  using pointer_chain_packet_parse [OF assms(2), of src scope now_arg clock room] assms(1)
  by (auto simp: DNSIncoming_def DECODE_EXCEPTIONS_def)

text \<open>
  Claim C3 says that name decompression fails with a decode error whenever a pointer
  points beyond the buffer, to itself or to an offset already visited for this name, and
  whenever following a pointer brings the label count over 128. The code does not do so
  on a long chain of pointers: in \<open>pointer_chain_packet k\<close> the only question's name is a
  chain of \<open>k\<close> pointers that ends in a pointer to itself, and when the interpreter has room
  for fewer than \<open>k\<close> nested calls, decompression never reaches the self-pointer. It raises
  \<^verbatim>\<open>RecursionError\<close>, which is not one of \<^verbatim>\<open>DECODE_EXCEPTIONS\<close>, and the constructor raises
  it too instead of returning a message that is not valid. With 1200 pointers (a packet of
  2414 bytes) and CPython's default recursion limit of 1000 this is the case.
\<close>

theorem deep_pointer_chain_escapes_as_recursion_error:
  assumes "room < k" and "14 + 2 * k \<le> 16384"
  shows "DNSIncoming (pointer_chain_packet k) src scope now_arg clock room = Inl RecursionError"
  using pointer_chain_packet_parse [OF assms(2), of src scope now_arg clock room] assms(1)
  by (auto simp: DNSIncoming_def DECODE_EXCEPTIONS_def)

theorem deep_pointer_chain_escapes_as_recursion_error_witness:
  "DNSIncoming (pointer_chain_packet 1200) None None None 0 1000 = Inl RecursionError"
  using deep_pointer_chain_escapes_as_recursion_error [of 1000 1200 None None None 0]
  by simp

end
